theory Spec2Isabelle
  imports Main "HOL-Library.Word" "HOL-Library.Monad_Syntax"
begin

section \<open>Machine integers and memory\<close>

text \<open>
  Samples are \<open>uint16_t\<close>. Sizes (\<open>size_t\<close>, 64 bit) are natural numbers and
  coordinates (\<open>int\<close>, 32 bit) are integers; every conversion between the two and every
  \<open>size_t\<close> expression that mixes them has its wrap-around written out.
\<close>

type_synonym uint16 = "16 word"

definition size_wrap :: "int \<Rightarrow> nat" where
  \<comment> \<open>the \<open>size_t\<close> holding the mathematical value \<open>i\<close>, modulo \<open>2^64\<close>\<close>
  "size_wrap i = nat (i mod 2 ^ 64)"

definition int_cast :: "int \<Rightarrow> int" where
  \<comment> \<open>the \<open>int\<close> holding the mathematical value \<open>i\<close>, two's complement on 32 bits\<close>
  "int_cast i = (i + 2 ^ 31) mod 2 ^ 32 - 2 ^ 31"

definition int_of_size :: "nat \<Rightarrow> int" where
  \<comment> \<open>\<open>(int)n\<close> for a \<open>size_t\<close> \<open>n\<close>\<close>
  "int_of_size n = int_cast (int n)"

definition size_plus_int :: "nat \<Rightarrow> int \<Rightarrow> nat" where
  \<comment> \<open>\<open>n + i\<close> for a \<open>size_t\<close> \<open>n\<close> and an \<open>int\<close> \<open>i\<close>: computed in \<open>size_t\<close>\<close>
  "size_plus_int n i = size_wrap (int n + int (size_wrap i))"

text \<open>
  A buffer is a list. A read or a write outside it is undefined behaviour in C; the
  model makes it the result \<open>None\<close>, which every caller propagates.
\<close>

definition rd :: "'a list \<Rightarrow> nat \<Rightarrow> 'a option" where
  "rd xs i = (if i < length xs then Some (xs ! i) else None)"

definition wr :: "'a list \<Rightarrow> nat \<Rightarrow> 'a \<Rightarrow> 'a list option" where
  "wr xs i v = (if i < length xs then Some (xs[i := v]) else None)"

definition wr_int :: "'a list \<Rightarrow> int \<Rightarrow> 'a \<Rightarrow> 'a list option" where
  \<comment> \<open>a write through an \<open>int\<close> index\<close>
  "wr_int xs i v = (if 0 \<le> i then wr xs (nat i) v else None)"

section \<open>The helpers\<close>

text \<open>
  \<open>bisect_left\<close>: the loop on \<open>lo\<close> and \<open>hi\<close>. The sum \<open>lo + hi\<close> is at most twice
  the number of elements of an allocated array, so it is taken without wrap-around.
\<close>

function bisect_loop :: "uint16 list \<Rightarrow> uint16 \<Rightarrow> nat \<Rightarrow> nat \<Rightarrow> nat option" where
  "bisect_loop arr val lo hi =
     (if lo < hi then
        (let mid = (lo + hi) div 2 in
         do {
           a \<leftarrow> rd arr mid;
           if a < val then bisect_loop arr val (mid + 1) hi
           else bisect_loop arr val lo mid
         })
      else Some lo)"
  by pat_completeness auto
termination
  by (relation "measure (\<lambda>(arr, val, lo, hi). hi - lo)") auto

definition bisect_left :: "uint16 list \<Rightarrow> nat \<Rightarrow> uint16 \<Rightarrow> nat option" where
  "bisect_left arr n val = bisect_loop arr val 0 n"

text \<open>
  \<open>getp\<close>: mirror padding, one reflection per axis, then the row-major read. The
  comparison with the extent and the reflection \<open>2 * extent - v - 2\<close> are computed in
  \<open>size_t\<close> and cast back to \<open>int\<close>; the index \<open>r * width + c\<close> is computed in
  \<open>size_t\<close>.
\<close>

definition mirror :: "nat \<Rightarrow> int \<Rightarrow> int" where
  "mirror extent v =
     (if v < 0 then int_cast (- v)
      else if extent \<le> size_wrap v
        then int_of_size (size_wrap (2 * int extent - int (size_wrap v) - 2))
      else v)"

definition getp_index :: "nat \<Rightarrow> nat \<Rightarrow> int \<Rightarrow> int \<Rightarrow> nat" where
  \<comment> \<open>the index \<open>r * width + c\<close> of the final read, after both reflections\<close>
  "getp_index width height r c =
     (let r1 = mirror height r;
          c1 = mirror width c
      in size_wrap (int (size_wrap r1) * int width + int (size_wrap c1)))"

definition getp :: "uint16 list \<Rightarrow> nat \<Rightarrow> nat \<Rightarrow> int \<Rightarrow> int \<Rightarrow> uint16 option" where
  "getp src width height r c = rd src (getp_index width height r c)"

text \<open>
  \<open>qsort\<close> with \<open>cmp_uint16\<close> arranges the first \<open>n\<close> elements in ascending order; for
  a total order that arrangement is unique, so it is \<open>sort\<close>.
\<close>

definition qsort_uint16 :: "uint16 list \<Rightarrow> nat \<Rightarrow> uint16 list option" where
  "qsort_uint16 win n =
     (if n \<le> length win then Some (sort (take n win) @ drop n win) else None)"

definition memcpy_uint16 :: "uint16 list \<Rightarrow> uint16 list \<Rightarrow> nat \<Rightarrow> uint16 list option" where
  \<comment> \<open>\<open>memcpy(dst, src, nbytes)\<close> on arrays of two-byte samples\<close>
  "memcpy_uint16 dst src nbytes =
     (let n = nbytes div 2 in
      if n \<le> length src \<and> n \<le> length dst then Some (take n src @ drop n dst) else None)"

section \<open>The filter\<close>

text \<open>
  Building the window: the two nested loops on \<open>dr\<close> and \<open>dc\<close>. The source has them
  twice, for row 0 before the scan and for row \<open>r + 1\<close> at the end of row \<open>r\<close>; they
  differ in the row coordinate only, which is the parameter \<open>rowc\<close>. The counters stay
  below \<open>(int)half + 1\<close>, and their increment is taken in the integers.
\<close>

function build_cols ::
  "uint16 list \<Rightarrow> nat \<Rightarrow> nat \<Rightarrow> int \<Rightarrow> int \<Rightarrow> int \<Rightarrow> uint16 list \<Rightarrow> nat
     \<Rightarrow> (uint16 list \<times> nat) option" where
  "build_cols src width height rr dc hf win idx =
     (if dc \<le> hf then
        do {
          v \<leftarrow> getp src width height rr dc;
          win' \<leftarrow> wr win idx v;
          build_cols src width height rr (dc + 1) hf win' (idx + 1)
        }
      else Some (win, idx))"
  by pat_completeness auto
termination
  by (relation "measure (\<lambda>(src, width, height, rr, dc, hf, win, idx). nat (hf + 1 - dc))") auto

function build_rows ::
  "uint16 list \<Rightarrow> nat \<Rightarrow> nat \<Rightarrow> (int \<Rightarrow> int) \<Rightarrow> int \<Rightarrow> int \<Rightarrow> uint16 list \<Rightarrow> nat
     \<Rightarrow> uint16 list option" where
  "build_rows src width height rowc dr hf win idx =
     (if dr \<le> hf then
        do {
          (win', idx') \<leftarrow> build_cols src width height (rowc dr) (- hf) hf win idx;
          build_rows src width height rowc (dr + 1) hf win' idx'
        }
      else Some win)"
  by pat_completeness auto
termination
  by (relation "measure (\<lambda>(src, width, height, rowc, dr, hf, win, idx). nat (hf + 1 - dr))") auto

text \<open>The removal: \<open>for (i = pos; i < win_area - 1; ++i) win[i] = win[i + 1]\<close>.\<close>

function shift_down :: "uint16 list \<Rightarrow> nat \<Rightarrow> nat \<Rightarrow> uint16 list option" where
  "shift_down win i n1 =
     (if i < n1 then
        do {
          v \<leftarrow> rd win (i + 1);
          win' \<leftarrow> wr win i v;
          shift_down win' (i + 1) n1
        }
      else Some win)"
  by pat_completeness auto
termination
  by (relation "measure (\<lambda>(win, i, n1). n1 - i)") auto

text \<open>The insertion: \<open>for (j = win_area - 1; j > ins_pos; --j) win[j] = win[j - 1]\<close>.\<close>

function shift_up :: "uint16 list \<Rightarrow> nat \<Rightarrow> nat \<Rightarrow> uint16 list option" where
  "shift_up win j ins_pos =
     (if ins_pos < j then
        do {
          v \<leftarrow> rd win (j - 1);
          win' \<leftarrow> wr win j v;
          shift_up win' (j - 1) ins_pos
        }
      else Some win)"
  by pat_completeness auto
termination
  by (relation "measure (\<lambda>(win, j, ins_pos). j)") auto

text \<open>
  The new right column: \<open>new_col[dr + (int)half] = getp(src, width, height, rr, cc)\<close>
  with \<open>rr = (int)(r + dr)\<close> and \<open>cc = (int)(c + half)\<close>.
\<close>

function fill_new_col ::
  "uint16 list \<Rightarrow> nat \<Rightarrow> nat \<Rightarrow> nat \<Rightarrow> nat \<Rightarrow> nat \<Rightarrow> int \<Rightarrow> int \<Rightarrow> uint16 list
     \<Rightarrow> uint16 list option" where
  "fill_new_col src width height r c half dr hf new_col =
     (if dr \<le> hf then
        do {
          v \<leftarrow> getp src width height (int_of_size (size_plus_int r dr))
                 (int_of_size (size_wrap (int c + int half)));
          new_col' \<leftarrow> wr_int new_col (int_cast (dr + hf)) v;
          fill_new_col src width height r c half (dr + 1) hf new_col'
        }
      else Some new_col)"
  by pat_completeness auto
termination
  by (relation "measure (\<lambda>(src, width, height, r, c, half, dr, hf, new_col). nat (hf + 1 - dr))")
    auto

text \<open>The \<open>ksize\<close> insertions, each a binary search in the first \<open>win_area - 1\<close> slots.\<close>

function insert_vals ::
  "uint16 list \<Rightarrow> uint16 list \<Rightarrow> nat \<Rightarrow> nat \<Rightarrow> nat \<Rightarrow> uint16 list option" where
  "insert_vals win new_col i ksize n1 =
     (if i < ksize then
        do {
          val \<leftarrow> rd new_col i;
          ins_pos \<leftarrow> bisect_left win n1 val;
          win' \<leftarrow> shift_up win n1 ins_pos;
          win'' \<leftarrow> wr win' ins_pos val;
          insert_vals win'' new_col (i + 1) ksize n1
        }
      else Some win)"
  by pat_completeness auto
termination
  by (relation "measure (\<lambda>(win, new_col, i, ksize, n1). ksize - i)") auto

text \<open>
  One column slide, from the search for \<open>win[0]\<close> to the last insertion. \<open>new_col\<close> is
  an array of 15 samples on the stack; it is written before it is read.
\<close>

definition slide_window ::
  "uint16 list \<Rightarrow> nat \<Rightarrow> nat \<Rightarrow> nat \<Rightarrow> nat \<Rightarrow> nat \<Rightarrow> uint16 list \<Rightarrow> uint16 list option" where
  "slide_window src width height ksize r c win =
     (let half = ksize div 2;
          hf = int_of_size half;
          win_area = size_wrap (int ksize * int ksize);
          n1 = size_wrap (int win_area - 1)
      in do {
        w0 \<leftarrow> rd win 0;
        pos \<leftarrow> bisect_left win win_area w0;
        win1 \<leftarrow> shift_down win pos n1;
        new_col \<leftarrow> fill_new_col src width height r c half (- hf) hf (replicate 15 0);
        insert_vals win1 new_col 0 ksize n1
      })"

text \<open>
  The scan. The state is the window and the output buffer. The third component is
  ghost state: the list of the windows a median was read from, in the order of the
  reads; nothing is computed from it.
\<close>

type_synonym scan_state = "uint16 list \<times> uint16 list \<times> uint16 list list"

definition median_index :: "nat \<Rightarrow> nat" where
  "median_index ksize = size_wrap (int (size_wrap (int (ksize div 2) * int ksize)) + int (ksize div 2))"

function col_loop ::
  "uint16 list \<Rightarrow> nat \<Rightarrow> nat \<Rightarrow> nat \<Rightarrow> nat \<Rightarrow> nat \<Rightarrow> scan_state \<Rightarrow> scan_state option" where
  "col_loop src width height ksize r c st =
     (if c < width then
        (case st of (win, dst, reads) \<Rightarrow>
         do {
           win' \<leftarrow> slide_window src width height ksize r c win;
           med \<leftarrow> rd win' (median_index ksize);
           dst' \<leftarrow> wr dst (size_wrap (int (size_wrap (int r * int width)) + int c)) med;
           col_loop src width height ksize r (c + 1) (win', dst', reads @ [win'])
         })
      else Some st)"
  by pat_completeness auto
termination
  by (relation "measure (\<lambda>(src, width, height, ksize, r, c, st). width - c)") auto

definition rebuild_window ::
  "uint16 list \<Rightarrow> nat \<Rightarrow> nat \<Rightarrow> nat \<Rightarrow> (int \<Rightarrow> int) \<Rightarrow> uint16 list \<Rightarrow> uint16 list option" where
  "rebuild_window src width height ksize rowc win =
     (let hf = int_of_size (ksize div 2) in
      do {
        win' \<leftarrow> build_rows src width height rowc (- hf) hf win 0;
        qsort_uint16 win' (size_wrap (int ksize * int ksize))
      })"

function row_loop ::
  "uint16 list \<Rightarrow> nat \<Rightarrow> nat \<Rightarrow> nat \<Rightarrow> nat \<Rightarrow> scan_state \<Rightarrow> scan_state option" where
  "row_loop src width height ksize r st =
     (if r < height then
        (case st of (win, dst, reads) \<Rightarrow>
         do {
           med \<leftarrow> rd win (median_index ksize);
           dst' \<leftarrow> wr dst (size_wrap (int r * int width)) med;
           (win1, dst1, reads1) \<leftarrow>
             col_loop src width height ksize r 1 (win, dst', reads @ [win]);
           win2 \<leftarrow>
             (if r + 1 < height
              then rebuild_window src width height ksize
                     (\<lambda>dr. int_of_size (size_plus_int (r + 1) dr)) win1
              else Some win1);
           row_loop src width height ksize (r + 1) (win2, dst1, reads1)
         })
      else Some st)"
  by pat_completeness auto
termination
  by (relation "measure (\<lambda>(src, width, height, ksize, r, st). height - r)") auto

text \<open>
  \<open>median_filter_scan\<close> is the whole function, with the ghost list of windows beside
  the output buffer. \<open>alloc_ok\<close> says whether \<open>malloc\<close> returns a buffer; the buffer
  holds \<open>win_area * sizeof(uint16_t)\<close> bytes, the product computed in \<open>size_t\<close>, and
  starts with arbitrary contents that are overwritten before the first read.
\<close>

definition median_filter_scan ::
  "uint16 list \<Rightarrow> uint16 list \<Rightarrow> nat \<Rightarrow> nat \<Rightarrow> nat \<Rightarrow> bool
     \<Rightarrow> (uint16 list \<times> uint16 list list) option" where
  "median_filter_scan src dst width height ksize alloc_ok =
     (if ksize mod 2 = 0 then
        do {
          dst' \<leftarrow> memcpy_uint16 dst src
                   (size_wrap (int (size_wrap (int width * int height)) * 2));
          Some (dst', [])
        }
      else if \<not> alloc_ok then Some (dst, [])
      else
        (let win_area = size_wrap (int ksize * int ksize);
             win0 = replicate (size_wrap (int win_area * 2) div 2) 0
         in do {
           win \<leftarrow> rebuild_window src width height ksize (\<lambda>dr. 0 + dr) win0;
           (win', dst', reads) \<leftarrow> row_loop src width height ksize 0 (win, dst, []);
           Some (dst', reads)
         }))"

definition median_filter_uint16 ::
  "uint16 list \<Rightarrow> uint16 list \<Rightarrow> nat \<Rightarrow> nat \<Rightarrow> nat \<Rightarrow> bool \<Rightarrow> uint16 list option" where
  "median_filter_uint16 src dst width height ksize alloc_ok =
     map_option fst (median_filter_scan src dst width height ksize alloc_ok)"

section \<open>Reference definitions\<close>

text \<open>
  What the results are compared with. A grid is a row-major list of
  \<open>width * height\<close> samples whose extents leave room for a neighbourhood in the
  \<open>int\<close> coordinates of \<open>getp\<close>; a coordinate is an \<open>int\<close> that can be negated.
\<close>

definition is_grid :: "nat \<Rightarrow> nat \<Rightarrow> uint16 list \<Rightarrow> bool" where
  "is_grid width height g \<longleftrightarrow>
     0 < width \<and> 0 < height \<and> width \<le> 2 ^ 30 \<and> height \<le> 2 ^ 30 \<and> length g = width * height"

definition is_coord :: "int \<Rightarrow> bool" where
  "is_coord v \<longleftrightarrow> - (2 ^ 31) < v \<and> v < 2 ^ 31"

text \<open>The reflection rule of the boundary sampler, as the specification words it.\<close>

definition reflect :: "nat \<Rightarrow> int \<Rightarrow> int" where
  "reflect extent v =
     (if v < 0 then - v
      else if int extent \<le> v then 2 * int extent - v - 2
      else v)"

definition sample_at :: "uint16 list \<Rightarrow> nat \<Rightarrow> int \<Rightarrow> int \<Rightarrow> uint16 option" where
  \<comment> \<open>the sample at row \<open>r\<close>, column \<open>c\<close> in row-major addressing, if the array has one\<close>
  "sample_at g width r c =
     (let i = r * int width + c
      in if 0 \<le> i \<and> i < int (length g) then Some (g ! nat i) else None)"

definition pixel :: "uint16 list \<Rightarrow> nat \<Rightarrow> nat \<Rightarrow> int \<Rightarrow> int \<Rightarrow> uint16" where
  \<comment> \<open>the mirror-padded grid\<close>
  "pixel g width height r c = g ! nat (reflect height r * int width + reflect width c)"

definition offsets :: "nat \<Rightarrow> int list" where
  "offsets ksize = [- int (ksize div 2) .. int (ksize div 2)]"

definition neighbourhood :: "uint16 list \<Rightarrow> nat \<Rightarrow> nat \<Rightarrow> nat \<Rightarrow> nat \<Rightarrow> nat \<Rightarrow> uint16 list" where
  \<comment> \<open>the mirror-padded \<open>ksize\<close> by \<open>ksize\<close> block centred at \<open>(r, c)\<close>, row by row\<close>
  "neighbourhood g width height ksize r c =
     concat (map (\<lambda>dr. map (\<lambda>dc. pixel g width height (int r + dr) (int c + dc)) (offsets ksize))
                 (offsets ksize))"

definition full_sort_median :: "uint16 list \<Rightarrow> uint16" where
  \<comment> \<open>the oracle: sort everything, take the middle element\<close>
  "full_sort_median xs = sort xs ! (length xs div 2)"

definition right_column :: "uint16 list \<Rightarrow> nat \<Rightarrow> nat \<Rightarrow> nat \<Rightarrow> nat \<Rightarrow> nat \<Rightarrow> uint16 list" where
  \<comment> \<open>the samples of column \<open>c + half\<close> that enter the window at column \<open>c\<close>\<close>
  "right_column g width height ksize r c =
     map (\<lambda>dr. pixel g width height (int r + dr) (int c + int (ksize div 2))) (offsets ksize)"

text \<open>
  What one column slide of the code does to an ascending window: the smallest element
  leaves; each new value is then inserted among all elements but the last.
\<close>

definition insert_one :: "uint16 list \<Rightarrow> uint16 \<Rightarrow> uint16 list" where
  "insert_one win v = insort v (butlast win)"

definition slide_result :: "uint16 list \<Rightarrow> uint16 list \<Rightarrow> uint16 list" where
  "slide_result win new_col = foldl insert_one (tl win @ [last win]) new_col"

fun window_at :: "uint16 list \<Rightarrow> nat \<Rightarrow> nat \<Rightarrow> nat \<Rightarrow> nat \<Rightarrow> nat \<Rightarrow> uint16 list" where
  "window_at g width height ksize r 0 = sort (neighbourhood g width height ksize r 0)"
| "window_at g width height ksize r (Suc c) =
     slide_result (window_at g width height ksize r c)
       (right_column g width height ksize r (Suc c))"

definition scan_result :: "uint16 list \<Rightarrow> nat \<Rightarrow> nat \<Rightarrow> nat \<Rightarrow> uint16 list" where
  "scan_result g width height ksize =
     concat (map (\<lambda>r. map (\<lambda>c. window_at g width height ksize r c ! (ksize * ksize div 2))
                           [0 ..< width])
                 [0 ..< height])"

definition scan_reads :: "uint16 list \<Rightarrow> nat \<Rightarrow> nat \<Rightarrow> nat \<Rightarrow> uint16 list list" where
  "scan_reads g width height ksize =
     concat (map (\<lambda>r. map (\<lambda>c. window_at g width height ksize r c) [0 ..< width]) [0 ..< height])"

text \<open>
  The column slide as the specification describes it: the \<open>ksize\<close> smallest elements
  leave, the \<open>ksize\<close> new values enter.
\<close>

definition slide_as_specified :: "nat \<Rightarrow> uint16 list \<Rightarrow> uint16 list \<Rightarrow> uint16 list" where
  "slide_as_specified ksize win new_col = sort (drop ksize (sort win) @ new_col)"

text \<open>The 5 by 4 image of the demonstration program that accompanies the filter.\<close>

definition example_grid :: "uint16 list" where
  "example_grid =
     [10, 12, 13, 15, 17,
       9, 11, 14, 16, 18,
      20, 22, 23, 25, 27,
      19, 21, 24, 26, 28]"

section \<open>Properties of the helpers\<close>

text \<open>
  The loops are unfolded one iteration at a time in the proofs below, never by the
  simplifier on its own.
\<close>

declare bisect_loop.simps [simp del] build_cols.simps [simp del] build_rows.simps [simp del]
  shift_down.simps [simp del] shift_up.simps [simp del] fill_new_col.simps [simp del]
  insert_vals.simps [simp del] col_loop.simps [simp del] row_loop.simps [simp del]

subsection \<open>Conversions that do not wrap\<close>

lemma size_wrap_nat: "0 \<le> i \<Longrightarrow> i < 2 ^ 64 \<Longrightarrow> size_wrap i = nat i"
  by (simp add: size_wrap_def)

lemma size_wrap_int: "n < 2 ^ 64 \<Longrightarrow> size_wrap (int n) = n"
  by (simp add: size_wrap_def)

lemma int_size_wrap: "int (size_wrap i) = i mod 2 ^ 64"
  by (simp add: size_wrap_def)

lemma int_cast_id: "- (2 ^ 31) \<le> i \<Longrightarrow> i < 2 ^ 31 \<Longrightarrow> int_cast i = i"
  by (simp add: int_cast_def)

lemma int_cast_mod: "int_cast (i mod 2 ^ 64) = int_cast i"
proof -
  have "(2 ^ 32 :: int) dvd 2 ^ 64"
    by (rule le_imp_power_dvd) simp
  then have "(i mod 2 ^ 64 + 2 ^ 31) mod 2 ^ 32 = (i + 2 ^ 31) mod (2 ^ 32 :: int)"
    by (metis mod_add_left_eq mod_mod_cancel)
  then show ?thesis by (simp add: int_cast_def)
qed

lemma int_of_size_wrap: "- (2 ^ 31) \<le> i \<Longrightarrow> i < 2 ^ 31 \<Longrightarrow> int_of_size (size_wrap i) = i"
  unfolding int_of_size_def int_size_wrap int_cast_mod by (rule int_cast_id)

lemma int_of_size_plus:
  "- (2 ^ 31) \<le> int n + i \<Longrightarrow> int n + i < 2 ^ 31 \<Longrightarrow> int_of_size (size_plus_int n i) = int n + i"
  unfolding int_of_size_def size_plus_int_def int_size_wrap mod_add_right_eq int_cast_mod
  by (rule int_cast_id)

lemma nat_pred: "nat (int m - 1) = m - 1"
  by arith

lemma size_wrap_less: "size_wrap i < 2 ^ 64"
  by (simp add: size_wrap_def nat_less_iff)

lemma size_wrap_pred: "0 < n \<Longrightarrow> n < 2 ^ 64 \<Longrightarrow> size_wrap (int n - 1) = n - 1"
proof -
  assume "0 < n" "n < 2 ^ 64"
  then have "size_wrap (int n - 1) = nat (int n - 1)"
    by (intro size_wrap_nat) simp_all
  then show ?thesis by (simp only: nat_pred)
qed

lemma win_area_pos:
  assumes "odd ksize"
  shows "0 < size_wrap (int ksize * int ksize)"
proof -
  have "(2 :: int) dvd 2 ^ 64" by simp
  then have "2 dvd (int ksize * int ksize) mod 2 ^ 64 \<longleftrightarrow> 2 dvd int ksize * int ksize"
    by (rule dvd_mod_iff)
  with assms have "(int ksize * int ksize) mod 2 ^ 64 \<noteq> 0" by auto
  moreover have "0 \<le> (int ksize * int ksize) mod 2 ^ 64" by simp
  ultimately have "0 < (int ksize * int ksize) mod 2 ^ 64" by linarith
  then show ?thesis by (simp add: size_wrap_def)
qed

lemma alloc_at_most: "size_wrap (int n * 2) div 2 \<le> n"
proof -
  have "(int n * 2) mod 2 ^ 64 \<le> int n * 2"
    by (rule zmod_le_nonneg_dividend) simp
  then have "size_wrap (int n * 2) \<le> n * 2"
    by (simp add: size_wrap_def)
  then show ?thesis by simp
qed

lemma area_wrap:
  assumes "hn < width" "width \<le> 2 ^ 30" "ksize = 2 * hn + 1"
  shows "size_wrap (int ksize * int ksize) = ksize * ksize"
proof -
  from assms have "int ksize \<le> 2 ^ 31" by simp
  then have "int ksize * int ksize \<le> 2 ^ 31 * 2 ^ 31"
    by (intro mult_mono) simp_all
  then have "int ksize * int ksize < 2 ^ 64" by simp
  then have "size_wrap (int ksize * int ksize) = nat (int ksize * int ksize)"
    by (intro size_wrap_nat) simp_all
  then show ?thesis by (simp add: nat_mult_distrib)
qed

lemma alloc_length:
  assumes "hn < width" "width \<le> 2 ^ 30" "ksize = 2 * hn + 1"
  shows "size_wrap (int (ksize * ksize) * 2) div 2 = ksize * ksize"
proof -
  from assms have "int ksize \<le> 2 ^ 31" by simp
  then have "int ksize * int ksize \<le> 2 ^ 31 * 2 ^ 31"
    by (intro mult_mono) simp_all
  then have "int (ksize * ksize) * 2 < 2 ^ 64" by simp
  then have "size_wrap (int (ksize * ksize) * 2) = nat (int (ksize * ksize) * 2)"
    by (intro size_wrap_nat) simp_all
  also have "\<dots> = ksize * ksize * 2" by (simp add: nat_mult_distrib)
  finally show ?thesis by simp
qed

lemma half_sq: "(2 * hn + 1) * (2 * hn + 1) div 2 = hn * (2 * hn + 1) + (hn :: nat)"
proof -
  have "(2 * hn + 1) * (2 * hn + 1) = 2 * (hn * (2 * hn + 1) + hn) + 1"
    by (simp add: algebra_simps)
  then show ?thesis by simp
qed

lemma odd_mid:
  assumes "odd k"
  shows "k div 2 * k + k div 2 = k * k div (2 :: nat)"
proof -
  from assms obtain hn where kk: "k = 2 * hn + 1" by (auto elim: oddE)
  have d: "(2 * hn + 1) div 2 = hn" by simp
  show ?thesis unfolding kk d by (rule half_sq [symmetric])
qed

lemma median_index_eq:
  assumes "hn < width" "width \<le> 2 ^ 30" "ksize = 2 * hn + 1"
  shows "median_index ksize = ksize * ksize div 2"
proof -
  have hk: "ksize div 2 = hn" using assms(3) by simp
  from assms have ih: "int ksize \<le> 2 ^ 31" "int hn < 2 ^ 30" by simp_all
  then have "int hn * int ksize \<le> 2 ^ 30 * 2 ^ 31"
    by (intro mult_mono) simp_all
  then have b: "int hn * int ksize < 2 ^ 62" by simp
  then have "size_wrap (int hn * int ksize) = nat (int hn * int ksize)"
    by (intro size_wrap_nat) simp_all
  then have p: "size_wrap (int hn * int ksize) = hn * ksize"
    by (simp add: nat_mult_distrib)
  have "int (hn * ksize) + int hn < 2 ^ 64" using b ih(2) by simp
  then have "size_wrap (int (hn * ksize) + int hn) = nat (int (hn * ksize) + int hn)"
    by (intro size_wrap_nat) simp_all
  then have "median_index ksize = hn * ksize + hn"
    unfolding median_index_def hk p by (simp add: nat_add_distrib nat_mult_distrib)
  then show ?thesis using half_sq [of hn] by (simp add: assms(3))
qed

lemma dst_index:
  assumes g: "is_grid width height src" and r: "r < height" and c: "c < width"
  shows "size_wrap (int r * int width) = r * width"
    and "size_wrap (int (r * width) + int c) = r * width + c"
proof -
  from g have w: "width \<le> 2 ^ 30" and h: "height \<le> 2 ^ 30" by (simp_all add: is_grid_def)
  have "int r * int width \<le> 2 ^ 30 * 2 ^ 30"
    using r c w h by (intro mult_mono) simp_all
  then have b: "int r * int width < 2 ^ 62" by simp
  then have "size_wrap (int r * int width) = nat (int r * int width)"
    by (intro size_wrap_nat) simp_all
  then show "size_wrap (int r * int width) = r * width" by (simp add: nat_mult_distrib)
  have "int (r * width) + int c < 2 ^ 64" using b c w by simp
  then have "size_wrap (int (r * width) + int c) = nat (int (r * width) + int c)"
    by (intro size_wrap_nat) simp_all
  then show "size_wrap (int (r * width) + int c) = r * width + c"
    by (simp add: nat_add_distrib nat_mult_distrib)
qed

subsection \<open>The boundary sampler\<close>

lemma mirror_reflect: "0 < extent \<Longrightarrow> is_coord v \<Longrightarrow> mirror extent v = reflect extent v"
proof -
  assume e: "0 < extent" and v: "is_coord v"
  show ?thesis
  proof (cases "v < 0")
    case True
    with v show ?thesis by (simp add: mirror_def reflect_def is_coord_def int_cast_id)
  next
    case False
    with v have sw: "size_wrap v = nat v" by (simp add: size_wrap_nat is_coord_def)
    show ?thesis
    proof (cases "int extent \<le> v")
      case True
      have "int_of_size (size_wrap (2 * int extent - v - 2)) = 2 * int extent - v - 2"
        using True e v by (intro int_of_size_wrap) (simp_all add: is_coord_def)
      moreover have "int (nat v) = v" using False by simp
      ultimately show ?thesis using True False by (simp add: mirror_def reflect_def sw)
    next
      case ge: False
      with False have "\<not> extent \<le> nat v" by linarith
      with False ge show ?thesis by (simp add: mirror_def reflect_def sw)
    qed
  qed
qed

lemma reflect_coord: "0 < extent \<Longrightarrow> is_coord v \<Longrightarrow> is_coord (reflect extent v)"
  by (auto simp: reflect_def is_coord_def)

lemma reflect_in_range:
  "hf < extent \<Longrightarrow> - int hf \<le> v \<Longrightarrow> v < int extent + int hf
     \<Longrightarrow> 0 \<le> reflect extent v \<and> reflect extent v < int extent"
  by (auto simp: reflect_def)

lemma getp_index_int:
  assumes "0 < width" "0 < height" "is_coord r" "is_coord c"
  shows "int (getp_index width height r c)
           = (reflect height r * int width + reflect width c) mod 2 ^ 64"
proof -
  have m: "(a mod m * w + b mod m) mod m = (a * w + b) mod m" for a b w m :: int
    by (metis mod_add_eq mod_mult_left_eq mod_mod_trivial)
  show ?thesis
    using assms unfolding getp_index_def Let_def int_size_wrap
    by (simp only: mirror_reflect m)
qed

lemma index_bound:
  assumes "0 \<le> R" "R < int height" "0 \<le> C" "C < int width"
  shows "0 \<le> R * int width + C \<and> R * int width + C < int (width * height)"
proof -
  have "R * int width \<le> (int height - 1) * int width"
    using assms by (intro mult_right_mono) simp_all
  then have "R * int width + C < int height * int width"
    using assms by (simp add: algebra_simps)
  moreover have "0 \<le> R * int width" using assms by simp
  ultimately show ?thesis using assms by (simp add: mult.commute)
qed

lemma getp_sample:
  assumes g: "is_grid width height src" and r: "is_coord r" and c: "is_coord c"
  shows "getp src width height r c = sample_at src width (reflect height r) (reflect width c)"
proof -
  define R where "R = reflect height r"
  define C where "C = reflect width c"
  define i where "i = R * int width + C"
  from g have w: "0 < width" "width \<le> 2 ^ 30" and h: "0 < height" "height \<le> 2 ^ 30"
    and len: "length src = width * height"
    by (simp_all add: is_grid_def)
  have Rb: "- (2 ^ 31) < R" "R < 2 ^ 31"
    using reflect_coord [OF h(1) r] by (simp_all add: R_def is_coord_def)
  have Cb: "- (2 ^ 31) < C" "C < 2 ^ 31"
    using reflect_coord [OF w(1) c] by (simp_all add: C_def is_coord_def)
  have "\<bar>R * int width\<bar> \<le> 2 ^ 31 * 2 ^ 30"
    unfolding abs_mult using Rb w by (intro mult_mono) simp_all
  then have ib: "- (2 ^ 62) < i" "i < 2 ^ 62"
    using Cb by (simp_all add: i_def)
  have "int width * int height \<le> 2 ^ 30 * 2 ^ 30"
    using w h by (intro mult_mono) simp_all
  then have lb: "int (length src) \<le> 2 ^ 60" by (simp add: len)
  have gi: "int (getp_index width height r c) = i mod 2 ^ 64"
    using getp_index_int [OF w(1) h(1) r c] by (simp add: i_def R_def C_def)
  show ?thesis
  proof (cases "0 \<le> i")
    case True
    with ib have "i mod 2 ^ 64 = i" by simp
    with gi have "getp_index width height r c = nat i" by simp
    with True show ?thesis
      by (simp add: getp_def rd_def sample_at_def i_def R_def C_def nat_less_iff)
  next
    case False
    with ib have "(i + 2 ^ 64) mod 2 ^ 64 = i + 2 ^ 64"
      by (intro mod_pos_pos_trivial) simp_all
    then have "i mod 2 ^ 64 = i + 2 ^ 64"
      by (simp only: mod_add_self2)
    with gi have "int (getp_index width height r c) = i + 2 ^ 64" by simp
    with ib lb have "int (length src) < int (getp_index width height r c)" by simp
    then have "\<not> getp_index width height r c < length src" by simp
    with False show ?thesis
      by (simp add: getp_def rd_def sample_at_def i_def R_def C_def)
  qed
qed

lemma getp_pixel:
  assumes g: "is_grid width height src" and r: "is_coord r" and c: "is_coord c"
    and R: "0 \<le> reflect height r" "reflect height r < int height"
    and C: "0 \<le> reflect width c" "reflect width c < int width"
  shows "getp src width height r c = Some (pixel src width height r c)"
proof -
  from g have len: "length src = width * height" by (simp add: is_grid_def)
  show ?thesis
    using index_bound [OF R C]
    by (simp add: getp_sample [OF g r c] sample_at_def pixel_def len)
qed

lemma getp_index_less:
  assumes g: "is_grid width height src" and r: "is_coord r" and c: "is_coord c"
    and R: "0 \<le> reflect height r" "reflect height r < int height"
    and C: "0 \<le> reflect width c" "reflect width c < int width"
  shows "getp_index width height r c < width * height"
proof -
  from g have len: "length src = width * height" by (simp add: is_grid_def)
  have "rd src (getp_index width height r c) \<noteq> None"
    using getp_pixel [OF assms] by (simp add: getp_def)
  then show ?thesis by (simp add: rd_def len split: if_splits)
qed

lemma pixel_inside:
  "r < height \<Longrightarrow> c < width \<Longrightarrow> pixel g width height (int r) (int c) = g ! (r * width + c)"
  by (simp add: pixel_def reflect_def nat_add_distrib nat_mult_distrib)

subsection \<open>Building and sorting the window\<close>

lemma upto_first: "i \<le> j \<Longrightarrow> [i..j] = i # [i + 1..j]"
  by (rule upto_rec1)

lemma length_upto_sym: "length [- int hn..int hn] = 2 * hn + 1"
  by simp

lemma length_offsets: "odd ksize \<Longrightarrow> length (offsets ksize) = ksize"
proof -
  assume "odd ksize"
  then have "ksize = 2 * (ksize div 2) + 1" by (auto elim: oddE)
  then show ?thesis unfolding offsets_def length_upto_sym by simp
qed

lemma offsets_one: "offsets (Suc 0) = [0]"
  by (simp add: offsets_def)

lemma length_neighbourhood:
  "odd ksize \<Longrightarrow> length (neighbourhood g width height ksize r c) = ksize * ksize"
  by (simp add: neighbourhood_def length_concat comp_def sum_list_triv length_offsets)

lemma length_right_column:
  "odd ksize \<Longrightarrow> length (right_column g width height ksize r c) = ksize"
  by (simp add: right_column_def length_offsets)

lemma build_cols_fill:
  assumes g: "is_grid width height src" and rr: "is_coord rr"
    and R: "0 \<le> reflect height rr" "reflect height rr < int height"
    and hn: "hn < width"
  shows "- int hn \<le> dc \<Longrightarrow> n = nat (int hn + 1 - dc) \<Longrightarrow> n \<le> length rest \<Longrightarrow>
     build_cols src width height rr dc (int hn) (pre @ rest) (length pre)
       = Some (pre @ map (pixel src width height rr) [dc..int hn] @ drop n rest, length pre + n)"
proof (induction n arbitrary: dc pre rest)
  case 0
  then have "\<not> dc \<le> int hn" by simp
  then show ?case
    by (subst build_cols.simps) simp
next
  case (Suc n)
  from Suc.prems have dc: "dc \<le> int hn" and n: "n = nat (int hn + 1 - (dc + 1))" by simp_all
  from Suc.prems obtain x rest' where rest: "rest = x # rest'" and len: "n \<le> length rest'"
    by (cases rest) simp_all
  from g have w: "width \<le> 2 ^ 30" by (simp add: is_grid_def)
  have cd: "is_coord dc" using dc Suc.prems(1) hn w by (simp add: is_coord_def)
  have C: "0 \<le> reflect width dc \<and> reflect width dc < int width"
    using dc Suc.prems(1) hn by (intro reflect_in_range [of hn]) simp_all
  have gp: "getp src width height rr dc = Some (pixel src width height rr dc)"
    using C by (intro getp_pixel [OF g rr cd R]) simp_all
  have step: "build_cols src width height rr (dc + 1) (int hn)
       ((pre @ [pixel src width height rr dc]) @ rest') (length (pre @ [pixel src width height rr dc]))
     = Some ((pre @ [pixel src width height rr dc]) @ map (pixel src width height rr) [dc + 1..int hn] @ drop n rest',
         length (pre @ [pixel src width height rr dc]) + n)"
    using Suc.prems(1) n len by (intro Suc.IH) simp_all
  show ?case
    apply (subst build_cols.simps)
    using dc step by (simp add: gp wr_def rest upto_first [OF dc])
qed

lemma build_rows_fill:
  assumes g: "is_grid width height src" and hn: "hn < width"
    and rowc: "\<And>d. - int hn \<le> d \<Longrightarrow> d \<le> int hn \<Longrightarrow>
       is_coord (rowc d) \<and> 0 \<le> reflect height (rowc d) \<and> reflect height (rowc d) < int height"
  shows "- int hn \<le> dr \<Longrightarrow> m = nat (int hn + 1 - dr) \<Longrightarrow> m * (2 * hn + 1) \<le> length rest \<Longrightarrow>
     build_rows src width height rowc dr (int hn) (pre @ rest) (length pre)
       = Some (pre @ concat (map (\<lambda>d. map (pixel src width height (rowc d)) [- int hn..int hn])
                               [dr..int hn])
                 @ drop (m * (2 * hn + 1)) rest)"
proof (induction m arbitrary: dr pre rest)
  case 0
  then have "\<not> dr \<le> int hn" by simp
  then show ?case
    by (subst build_rows.simps) simp
next
  case (Suc m)
  define k where "k = 2 * hn + 1"
  define F where "F = (\<lambda>d. map (pixel src width height (rowc d)) [- int hn..int hn])"
  define row where "row = F dr"
  have lrow: "length row = k" by (simp add: row_def F_def k_def)
  from Suc.prems have dr: "dr \<le> int hn" and m: "m = nat (int hn + 1 - (dr + 1))" by simp_all
  from Suc.prems(3) have len: "k \<le> length rest" "m * k \<le> length (drop k rest)"
    by (simp_all add: k_def)
  note rc = rowc [OF Suc.prems(1) dr]
  have cols: "build_cols src width height (rowc dr) (- int hn) (int hn) (pre @ rest) (length pre)
      = Some (pre @ row @ drop k rest, length pre + k)"
    unfolding row_def F_def using rc len(1)
    by (intro build_cols_fill [OF g _ _ _ hn]) (simp_all add: k_def)
  have "build_rows src width height rowc (dr + 1) (int hn)
       ((pre @ row) @ drop k rest) (length (pre @ row))
     = Some ((pre @ row) @ concat (map F [dr + 1..int hn]) @ drop (m * k) (drop k rest))"
    unfolding F_def k_def
    using Suc.prems(1) m len(2) by (intro Suc.IH) (simp_all add: k_def)
  moreover have "(pre @ row) @ concat (map F [dr + 1..int hn]) @ drop (m * k) (drop k rest)
      = pre @ concat (map F [dr..int hn]) @ drop (Suc m * k) rest"
    by (simp add: upto_first [OF dr] row_def add.commute)
  ultimately have step: "build_rows src width height rowc (dr + 1) (int hn)
       (pre @ row @ drop k rest) (length pre + k)
     = Some (pre @ concat (map F [dr..int hn]) @ drop (Suc m * k) rest)"
    by (simp add: lrow)
  have "build_rows src width height rowc dr (int hn) (pre @ rest) (length pre)
     = Some (pre @ concat (map F [dr..int hn]) @ drop (Suc m * k) rest)"
    apply (subst build_rows.simps)
    using step by (simp add: dr cols)
  then show ?case by (simp only: F_def k_def)
qed

lemma rebuild_window_sorted:
  assumes g: "is_grid width height src" and k: "odd ksize"
    and hw: "ksize div 2 < width" and hh: "ksize div 2 < height" and r: "r < height"
    and len: "length win = ksize * ksize"
    and rowc: "\<And>d. - int (ksize div 2) \<le> d \<Longrightarrow> d \<le> int (ksize div 2) \<Longrightarrow> rowc d = int r + d"
  shows "rebuild_window src width height ksize rowc win
           = Some (sort (neighbourhood src width height ksize r 0))"
proof -
  define hn where "hn = ksize div 2"
  from k have kk: "ksize = 2 * hn + 1" by (auto simp: hn_def elim: oddE)
  from g have w: "width \<le> 2 ^ 30" and h: "height \<le> 2 ^ 30" by (simp_all add: is_grid_def)
  have hf: "int_of_size hn = int hn"
    using hw w by (simp add: int_of_size_def int_cast_id hn_def)
  have area: "size_wrap (int ksize * int ksize) = ksize * ksize"
    using hw by (intro area_wrap [OF _ w kk]) (simp add: hn_def)
  have rc: "is_coord (rowc d) \<and> 0 \<le> reflect height (rowc d) \<and> reflect height (rowc d) < int height"
    if "- int hn \<le> d" "d \<le> int hn" for d
  proof -
    have e: "rowc d = int r + d" using that by (intro rowc) (simp_all add: hn_def)
    have "is_coord (int r + d)" using that r h hh by (simp add: is_coord_def hn_def)
    moreover have "0 \<le> reflect height (int r + d) \<and> reflect height (int r + d) < int height"
      using that r hh by (intro reflect_in_range [of hn]) (simp_all add: hn_def)
    ultimately show ?thesis by (simp add: e)
  qed
  have b1: "build_rows src width height rowc (- int hn) (int hn) ([] @ win) (length ([] :: uint16 list))
     = Some ([] @ concat (map (\<lambda>d. map (pixel src width height (rowc d)) [- int hn..int hn])
                               [- int hn..int hn])
                 @ drop ((2 * hn + 1) * (2 * hn + 1)) win)"
    using hw len rc
    by (intro build_rows_fill [OF g, where m = "2 * hn + 1"]) (simp_all add: hn_def [symmetric] kk)
  have nb: "concat (map (\<lambda>d. map (pixel src width height (rowc d)) [- int hn..int hn])
                               [- int hn..int hn])
      = neighbourhood src width height ksize r 0"
    unfolding neighbourhood_def offsets_def hn_def [symmetric]
    by (intro arg_cong [where f = concat] map_cong refl) (simp add: rowc hn_def)
  have nlen: "length (neighbourhood src width height ksize r 0) = ksize * ksize"
    by (simp add: neighbourhood_def length_concat comp_def sum_list_triv length_offsets [OF k])
  have d0: "drop ((2 * hn + 1) * (2 * hn + 1)) win = []"
    using len by (simp add: kk)
  have br: "build_rows src width height rowc (- int hn) (int hn) win 0
      = Some (neighbourhood src width height ksize r 0)"
    using b1 unfolding nb d0 by simp
  show ?thesis
    by (simp add: rebuild_window_def hn_def [symmetric] hf area br qsort_uint16_def nlen)
qed

lemma build_cols_length:
  "build_cols src width height rr dc hf win idx = Some (win', idx') \<Longrightarrow> length win' = length win"
proof (induction "nat (hf + 1 - dc)" arbitrary: dc win idx)
  case 0
  then have "\<not> dc \<le> hf" by simp
  with "0.prems" show ?case by (subst (asm) build_cols.simps) simp
next
  case (Suc n)
  from Suc.hyps(2) have dc: "dc \<le> hf" by simp
  from Suc.prems dc obtain v w1 where w1: "wr win idx v = Some w1"
      and rec: "build_cols src width height rr (dc + 1) hf w1 (idx + 1) = Some (win', idx')"
    by (subst (asm) build_cols.simps) (auto simp: bind_eq_Some_conv)
  have "length win' = length w1"
    using Suc.hyps(2) by (intro Suc.hyps(1) [OF _ rec]) simp
  moreover have "length w1 = length win"
    using w1 by (auto simp: wr_def split: if_splits)
  ultimately show ?case by simp
qed

lemma build_rows_length:
  "build_rows src width height rowc dr hf win idx = Some win' \<Longrightarrow> length win' = length win"
proof (induction "nat (hf + 1 - dr)" arbitrary: dr win idx)
  case 0
  then have "\<not> dr \<le> hf" by simp
  with "0.prems" show ?case by (subst (asm) build_rows.simps) simp
next
  case (Suc n)
  from Suc.hyps(2) have dr: "dr \<le> hf" by simp
  from Suc.prems dr obtain w1 i1 where
      cols: "build_cols src width height (rowc dr) (- hf) hf win idx = Some (w1, i1)"
      and rec: "build_rows src width height rowc (dr + 1) hf w1 i1 = Some win'"
    by (subst (asm) build_rows.simps) (auto simp: bind_eq_Some_conv)
  have "length win' = length w1"
    using Suc.hyps(2) by (intro Suc.hyps(1) [OF _ rec]) simp
  with build_cols_length [OF cols] show ?case by simp
qed

lemma rebuild_window_inv:
  assumes "rebuild_window src width height ksize rowc win = Some win'"
    and "length win \<le> size_wrap (int ksize * int ksize)"
  shows "sorted win' \<and> length win' = size_wrap (int ksize * int ksize)"
proof -
  define n where "n = size_wrap (int ksize * int ksize)"
  from assms(1) obtain wb where
      b: "build_rows src width height rowc (- int_of_size (ksize div 2)) (int_of_size (ksize div 2)) win 0
            = Some wb"
      and q: "qsort_uint16 wb n = Some win'"
    by (auto simp: rebuild_window_def Let_def bind_eq_Some_conv n_def)
  from build_rows_length [OF b] assms(2) have "length wb \<le> n" by (simp add: n_def)
  with q have "length wb = n" "win' = sort wb"
    by (auto simp: qsort_uint16_def split: if_splits)
  then show ?thesis by (simp add: n_def)
qed

subsection \<open>Binary search, removal and insertion\<close>

lemma sorted_take_nth:
  "sorted (take n arr) \<Longrightarrow> n \<le> length arr \<Longrightarrow> i \<le> j \<Longrightarrow> j < n \<Longrightarrow> arr ! i \<le> arr ! j"
  using sorted_nth_mono [of "take n arr" i j] by simp

lemma bisect_loop_correct:
  assumes srt: "sorted (take n arr)" and n: "n \<le> length arr"
  shows "lo \<le> hi \<Longrightarrow> hi \<le> n \<Longrightarrow> (\<forall>i<lo. arr ! i < v)
     \<Longrightarrow> (\<forall>i. hi \<le> i \<and> i < n \<longrightarrow> v \<le> arr ! i)
     \<Longrightarrow> \<exists>p. bisect_loop arr v lo hi = Some p \<and> p \<le> n \<and> (\<forall>i<p. arr ! i < v)
            \<and> (\<forall>i. p \<le> i \<and> i < n \<longrightarrow> v \<le> arr ! i)"
proof (induction "hi - lo" arbitrary: lo hi rule: less_induct)
  case less
  show ?case
  proof (cases "lo < hi")
    case False
    with less.prems have "lo = hi" by simp
    with less.prems show ?thesis
      by (subst bisect_loop.simps) simp
  next
    case True
    define mid where "mid = (lo + hi) div 2"
    from True have m: "lo \<le> mid" "mid < hi" by (simp_all add: mid_def)
    with less.prems n have rdm: "rd arr mid = Some (arr ! mid)" by (simp add: rd_def)
    show ?thesis
    proof (cases "arr ! mid < v")
      case lt: True
      have "\<forall>i<mid + 1. arr ! i < v"
      proof (intro allI impI)
        fix i assume "i < mid + 1"
        then have "arr ! i \<le> arr ! mid"
          using m less.prems by (intro sorted_take_nth [OF srt n]) simp_all
        with lt show "arr ! i < v" by simp
      qed
      then have "\<exists>p. bisect_loop arr v (mid + 1) hi = Some p \<and> p \<le> n \<and> (\<forall>i<p. arr ! i < v)
            \<and> (\<forall>i. p \<le> i \<and> i < n \<longrightarrow> v \<le> arr ! i)"
        using m less.prems by (intro less.hyps) simp_all
      then show ?thesis
        apply (subst bisect_loop.simps)
        using True lt by (simp add: mid_def [symmetric] rdm Let_def)
    next
      case ge: False
      have "\<forall>i. mid \<le> i \<and> i < n \<longrightarrow> v \<le> arr ! i"
      proof (intro allI impI)
        fix i assume "mid \<le> i \<and> i < n"
        then have "arr ! mid \<le> arr ! i"
          by (intro sorted_take_nth [OF srt n]) simp_all
        with ge show "v \<le> arr ! i" by simp
      qed
      then have "\<exists>p. bisect_loop arr v lo mid = Some p \<and> p \<le> n \<and> (\<forall>i<p. arr ! i < v)
            \<and> (\<forall>i. p \<le> i \<and> i < n \<longrightarrow> v \<le> arr ! i)"
        using m less.prems by (intro less.hyps) simp_all
      then show ?thesis
        apply (subst bisect_loop.simps)
        using True ge by (simp add: mid_def [symmetric] rdm Let_def)
    qed
  qed
qed

lemma insort_at:
  "sorted xs \<Longrightarrow> p \<le> length xs \<Longrightarrow> \<forall>i<p. xs ! i < v
     \<Longrightarrow> \<forall>i. p \<le> i \<and> i < length xs \<longrightarrow> v \<le> xs ! i
     \<Longrightarrow> insort v xs = take p xs @ v # drop p xs"
proof (induction xs arbitrary: p)
  case Nil
  then show ?case by simp
next
  case (Cons y ys)
  show ?case
  proof (cases p)
    case 0
    with Cons.prems have "v \<le> y" by auto
    with 0 show ?thesis by simp
  next
    case (Suc q)
    with Cons.prems have "y < v" by auto
    then have "\<not> v \<le> y" by simp
    moreover have "insort v ys = take q ys @ v # drop q ys"
      using Cons.prems Suc by (intro Cons.IH) auto
    ultimately show ?thesis using Suc by simp
  qed
qed

lemma shift_down_result:
  "m \<le> length rest \<Longrightarrow> n1 = length pre + m \<Longrightarrow>
     shift_down (pre @ x # rest) (length pre) n1
       = Some (pre @ take m rest @ last (x # take m rest) # drop m rest)"
proof (induction m arbitrary: pre x rest)
  case 0
  then show ?case by (subst shift_down.simps) simp
next
  case (Suc m)
  then obtain y rest' where rest: "rest = y # rest'" and len: "m \<le> length rest'"
    by (cases rest) simp_all
  have step: "shift_down ((pre @ [y]) @ y # rest') (length (pre @ [y])) n1
      = Some ((pre @ [y]) @ take m rest' @ last (y # take m rest') # drop m rest')"
    using len Suc.prems by (intro Suc.IH) simp_all
  show ?case
    apply (subst shift_down.simps)
    using step Suc.prems by (simp add: rest rd_def wr_def nth_append)
qed

lemma shift_step:
  assumes "0 < j" "j \<le> n1" "length orig = n1 + 1"
  shows "(take (j + 1) orig @ drop j (take n1 orig))[j := orig ! (j - 1)]
           = take j orig @ drop (j - 1) (take n1 orig)"
proof -
  have "take (j + 1) orig = take j orig @ [orig ! j]"
    using assms by (simp add: take_Suc_conv_app_nth)
  moreover have "drop (j - 1) (take n1 orig) = orig ! (j - 1) # drop j (take n1 orig)"
    using assms Cons_nth_drop_Suc [of "j - 1" "take n1 orig"] by simp
  ultimately show ?thesis using assms by (simp add: list_update_append)
qed

lemma shift_up_result:
  "d = j - p \<Longrightarrow> p \<le> j \<Longrightarrow> j \<le> n1 \<Longrightarrow> length orig = n1 + 1 \<Longrightarrow>
     shift_up (take (j + 1) orig @ drop j (take n1 orig)) j p
       = Some (take (p + 1) orig @ drop p (take n1 orig))"
proof (induction d arbitrary: j)
  case 0
  then show ?case by (subst shift_up.simps) simp
next
  case (Suc d)
  then have j: "p < j" "0 < j" by simp_all
  have "shift_up (take (j - 1 + 1) orig @ drop (j - 1) (take n1 orig)) (j - 1) p
      = Some (take (p + 1) orig @ drop p (take n1 orig))"
    using Suc.prems by (intro Suc.IH) simp_all
  then have step: "shift_up (take j orig @ drop (j - 1) (take n1 orig)) (j - 1) p
      = Some (take (p + 1) orig @ drop p (take n1 orig))"
    using j by simp
  have lt: "length (take (j + 1) orig) = j + 1" "j - 1 < j + 1"
    using Suc.prems by simp_all
  have "(take (j + 1) orig @ drop j (take n1 orig)) ! (j - 1) = take (j + 1) orig ! (j - 1)"
    using lt by (simp only: nth_append if_True)
  then have r: "rd (take (j + 1) orig @ drop j (take n1 orig)) (j - 1) = Some (orig ! (j - 1))"
    using lt by (simp add: rd_def)
  have w: "wr (take (j + 1) orig @ drop j (take n1 orig)) j (orig ! (j - 1))
      = Some (take j orig @ drop (j - 1) (take n1 orig))"
    using shift_step [OF j(2) Suc.prems(3,4)] Suc.prems by (simp add: wr_def)
  show ?case
    apply (subst shift_up.simps)
    using j(1) r w step by simp
qed

lemma remove_smallest:
  assumes srt: "sorted win" and len: "length win = n1 + 1"
  shows "rd win 0 \<bind> (\<lambda>w0. bisect_left win (n1 + 1) w0 \<bind> (\<lambda>pos. shift_down win pos n1))
           = Some (tl win @ [last win])"
proof -
  from len obtain x rest where win: "win = x # rest" and lrest: "length rest = n1"
    by (cases win) simp_all
  have rd0: "rd win 0 = Some x" by (simp add: rd_def win)
  have "\<exists>p. bisect_loop win x 0 (n1 + 1) = Some p \<and> p \<le> n1 + 1
            \<and> (\<forall>i<p. win ! i < x) \<and> (\<forall>i. p \<le> i \<and> i < n1 + 1 \<longrightarrow> x \<le> win ! i)"
    using srt len by (intro bisect_loop_correct) auto
  then obtain p where p: "bisect_loop win x 0 (n1 + 1) = Some p" "\<forall>i<p. win ! i < x"
    by blast
  have "p = 0"
  proof (rule ccontr)
    assume "p \<noteq> 0"
    with p(2) have "win ! 0 < x" by simp
    then show False by (simp add: win)
  qed
  with p have bis: "bisect_left win (n1 + 1) x = Some 0" by (simp add: bisect_left_def)
  have "shift_down ([] @ x # rest) (length ([] :: uint16 list)) n1
      = Some ([] @ take n1 rest @ last (x # take n1 rest) # drop n1 rest)"
    using lrest by (intro shift_down_result) simp_all
  then have sd: "shift_down win 0 n1 = Some (tl win @ [last win])"
    using lrest by (simp add: win)
  show ?thesis using bis sd by (simp add: rd0)
qed

lemma insert_step:
  assumes len: "length win = n1 + 1" and srt: "sorted (take n1 win)"
  shows "bisect_left win n1 v \<bind> (\<lambda>p. shift_up win n1 p \<bind> (\<lambda>w. wr w p v))
           = Some (insert_one win v)"
proof -
  define xs where "xs = take n1 win"
  have lxs: "length xs = n1" using len by (simp add: xs_def)
  have bl: "butlast win = xs" using len by (simp add: xs_def butlast_conv_take)
  have "\<exists>p. bisect_loop win v 0 n1 = Some p \<and> p \<le> n1 \<and> (\<forall>i<p. win ! i < v)
            \<and> (\<forall>i. p \<le> i \<and> i < n1 \<longrightarrow> v \<le> win ! i)"
    using len by (intro bisect_loop_correct [OF srt]) auto
  then obtain p where p: "bisect_loop win v 0 n1 = Some p" "p \<le> n1" "\<forall>i<p. win ! i < v"
      "\<forall>i. p \<le> i \<and> i < n1 \<longrightarrow> v \<le> win ! i"
    by blast
  have "insort v xs = take p xs @ v # drop p xs"
    using srt p lxs by (intro insort_at) (simp_all add: xs_def)
  moreover have "take p xs = take p win" using p(2) by (simp add: xs_def min_def)
  ultimately have ins: "insort v xs = take p win @ v # drop p xs" by simp
  have "shift_up (take (n1 + 1) win @ drop n1 (take n1 win)) n1 p
      = Some (take (p + 1) win @ drop p (take n1 win))"
    using p(2) len by (intro shift_up_result [where d = "n1 - p"]) simp_all
  then have su: "shift_up win n1 p = Some (take (p + 1) win @ drop p xs)"
    using len by (simp add: xs_def)
  have "take (p + 1) win = take p win @ [win ! p]"
    using p(2) len by (simp add: take_Suc_conv_app_nth)
  then have "(take (p + 1) win @ drop p xs)[p := v] = take p win @ v # drop p xs"
    using p(2) len by (simp add: list_update_append)
  then have w: "wr (take (p + 1) win @ drop p xs) p v = Some (insort v xs)"
    using p(2) len by (simp add: wr_def ins)
  show ?thesis
    using p(1) su w by (simp add: bisect_left_def insert_one_def bl)
qed

lemma insert_vals_result:
  "d = k - i \<Longrightarrow> i \<le> k \<Longrightarrow> k \<le> length nc \<Longrightarrow> length win = n1 + 1 \<Longrightarrow> sorted (take n1 win)
     \<Longrightarrow> insert_vals win nc i k n1 = Some (foldl insert_one win (drop i (take k nc)))"
proof (induction d arbitrary: i win)
  case 0
  then show ?case by (subst insert_vals.simps) simp
next
  case (Suc d)
  then have i: "i < k" "i < length nc" by simp_all
  define win' where "win' = insert_one win (nc ! i)"
  have l': "length win' = n1 + 1"
    using Suc.prems by (simp add: win'_def insert_one_def)
  have "sorted win'"
    using Suc.prems by (simp add: win'_def insert_one_def butlast_conv_take sorted_insort)
  then have s': "sorted (take n1 win')" by (rule sorted_wrt_take)
  have step: "insert_vals win' nc (i + 1) k n1
      = Some (foldl insert_one win' (drop (i + 1) (take k nc)))"
    using Suc.prems i l' s' by (intro Suc.IH) simp_all
  have "drop i (take k nc) = nc ! i # drop (i + 1) (take k nc)"
    using i Cons_nth_drop_Suc [of i "take k nc"] by simp
  then have fl: "foldl insert_one win (drop i (take k nc))
      = foldl insert_one win' (drop (i + 1) (take k nc))"
    by (simp add: win'_def)
  have ins: "bisect_left win n1 (nc ! i) \<bind> (\<lambda>p. shift_up win n1 p \<bind> (\<lambda>w. wr w p (nc ! i)))
      = Some win'"
    unfolding win'_def using Suc.prems by (intro insert_step) simp_all
  have "insert_vals win nc i k n1 = insert_vals win' nc (i + 1) k n1"
  proof (subst insert_vals.simps)
    have "(bisect_left win n1 (nc ! i) \<bind> (\<lambda>p. shift_up win n1 p \<bind> (\<lambda>w. wr w p (nc ! i) \<bind>
             (\<lambda>w''. insert_vals w'' nc (i + 1) k n1))))
        = (bisect_left win n1 (nc ! i) \<bind> (\<lambda>p. shift_up win n1 p \<bind> (\<lambda>w. wr w p (nc ! i))))
            \<bind> (\<lambda>w''. insert_vals w'' nc (i + 1) k n1)"
      by (simp add: Option.bind_assoc)
    then show "(if i < k then rd nc i \<bind> (\<lambda>val. bisect_left win n1 val \<bind>
           (\<lambda>ins_pos. shift_up win n1 ins_pos \<bind> (\<lambda>win'. wr win' ins_pos val \<bind>
             (\<lambda>win''. insert_vals win'' nc (i + 1) k n1))))
         else Some win) = insert_vals win' nc (i + 1) k n1"
      using i by (simp add: rd_def ins)
  qed
  then show ?case using step fl by simp
qed

lemma insert_vals_inv:
  "insert_vals win nc i k n1 = Some win' \<Longrightarrow> length win = n1 + 1 \<Longrightarrow> sorted win
     \<Longrightarrow> sorted win' \<and> length win' = n1 + 1"
proof (induction "k - i" arbitrary: i win)
  case 0
  then have "\<not> i < k" by simp
  with "0.prems" show ?case by (subst (asm) insert_vals.simps) simp
next
  case (Suc d)
  from Suc.hyps(2) have i: "i < k" by simp
  have st: "sorted (take n1 win)" using Suc.prems(3) by (rule sorted_wrt_take)
  have unf: "insert_vals win nc i k n1
      = rd nc i \<bind> (\<lambda>val. (bisect_left win n1 val \<bind> (\<lambda>p. shift_up win n1 p \<bind> (\<lambda>w. wr w p val)))
            \<bind> (\<lambda>w''. insert_vals w'' nc (i + 1) k n1))"
    apply (subst insert_vals.simps)
    using i by (simp add: Option.bind_assoc)
  from Suc.prems(1) obtain v where
      rec: "insert_vals (insert_one win v) nc (i + 1) k n1 = Some win'"
    unfolding unf by (auto simp: bind_eq_Some_conv insert_step [OF Suc.prems(2) st])
  have "sorted (insert_one win v)"
    using Suc.prems by (simp add: insert_one_def sorted_insort sorted_butlast)
  moreover have "length (insert_one win v) = n1 + 1"
    using Suc.prems by (simp add: insert_one_def)
  ultimately show ?case
    using Suc.hyps(2) by (intro Suc.hyps(1) [OF _ rec]) simp_all
qed

lemma fill_new_col_result:
  assumes g: "is_grid width height src" and hh: "hn < height" and hw: "hn < width"
    and r: "r < height" and c: "c < width"
  shows "- int hn \<le> dr \<Longrightarrow> n = nat (int hn + 1 - dr) \<Longrightarrow> n \<le> length rest
     \<Longrightarrow> length pre = nat (dr + int hn) \<Longrightarrow>
     fill_new_col src width height r c hn dr (int hn) (pre @ rest)
       = Some (pre @ map (\<lambda>d. pixel src width height (int r + d) (int c + int hn)) [dr..int hn]
                 @ drop n rest)"
proof (induction n arbitrary: dr pre rest)
  case 0
  then have "\<not> dr \<le> int hn" by simp
  then show ?case by (subst fill_new_col.simps) simp
next
  case (Suc n)
  define v where "v = pixel src width height (int r + dr) (int c + int hn)"
  from Suc.prems have dr: "dr \<le> int hn" and n: "n = nat (int hn + 1 - (dr + 1))" by simp_all
  from Suc.prems obtain x rest' where rest: "rest = x # rest'" and len: "n \<le> length rest'"
    by (cases rest) simp_all
  from g have w: "width \<le> 2 ^ 30" and h: "height \<le> 2 ^ 30" by (simp_all add: is_grid_def)
  have rr: "int_of_size (size_plus_int r dr) = int r + dr"
    using dr Suc.prems(1) r hh h by (intro int_of_size_plus) simp_all
  have cc: "int_of_size (size_wrap (int c + int hn)) = int c + int hn"
    using c hw w by (intro int_of_size_wrap) simp_all
  have cr: "is_coord (int r + dr)" using dr Suc.prems(1) r hh h by (simp add: is_coord_def)
  have ccd: "is_coord (int c + int hn)" using c hw w by (simp add: is_coord_def)
  have R: "0 \<le> reflect height (int r + dr) \<and> reflect height (int r + dr) < int height"
    using dr Suc.prems(1) r hh by (intro reflect_in_range [of hn]) simp_all
  have C: "0 \<le> reflect width (int c + int hn) \<and> reflect width (int c + int hn) < int width"
    using c hw by (intro reflect_in_range [of hn]) simp_all
  have gp: "getp src width height (int r + dr) (int c + int hn) = Some v"
    unfolding v_def using R C by (intro getp_pixel [OF g cr ccd]) simp_all
  have ic: "int_cast (dr + int hn) = dr + int hn"
    using dr Suc.prems(1) hw w by (intro int_cast_id) simp_all
  have idx: "nat (dr + int hn) = length pre" using Suc.prems(4) by simp
  have wri: "wr_int (pre @ rest) (dr + int hn) v = Some ((pre @ [v]) @ rest')"
    using Suc.prems(1) by (simp add: wr_int_def wr_def rest idx)
  have step: "fill_new_col src width height r c hn (dr + 1) (int hn) ((pre @ [v]) @ rest')
     = Some ((pre @ [v]) @ map (\<lambda>d. pixel src width height (int r + d) (int c + int hn)) [dr + 1..int hn]
                 @ drop n rest')"
    using Suc.prems(1,4) n len by (intro Suc.IH) (simp_all add: nat_add_distrib)
  show ?case
    apply (subst fill_new_col.simps)
    using dr step wri by (simp add: rr cc gp ic rest upto_first [OF dr] v_def)
qed

subsection \<open>The window stays ascending\<close>

lemma sorted_rotate_first: "sorted win \<Longrightarrow> win \<noteq> [] \<Longrightarrow> sorted (tl win @ [last win])"
proof -
  assume s: "sorted win" and ne: "win \<noteq> []"
  have "\<forall>x\<in>set (tl win). x \<le> last win"
  proof
    fix x assume "x \<in> set (tl win)"
    then have "x \<in> set (butlast win) \<or> x = last win"
      using ne by (metis Un_iff append_butlast_last_id empty_iff empty_set list.set_sel(2) set_ConsD set_append)
    moreover have "\<forall>y\<in>set (butlast win). y \<le> last win"
      using s ne by (metis append_butlast_last_id sorted_append list.set_intros(1))
    ultimately show "x \<le> last win" by auto
  qed
  moreover have "sorted (tl win)" using s by (rule sorted_tl)
  ultimately show ?thesis by (simp add: sorted_append)
qed

lemma foldl_insert_one:
  "sorted win \<Longrightarrow> win \<noteq> [] \<Longrightarrow>
     sorted (foldl insert_one win vs) \<and> length (foldl insert_one win vs) = length win"
proof (induction vs arbitrary: win)
  case Nil
  then show ?case by simp
next
  case (Cons v vs)
  have "sorted (insert_one win v)"
    using Cons.prems by (simp add: insert_one_def sorted_insort sorted_butlast)
  moreover have l: "length (insert_one win v) = length win"
    using Cons.prems by (simp add: insert_one_def)
  moreover have "insert_one win v \<noteq> []"
    using Cons.prems l by (metis length_0_conv)
  ultimately show ?case using Cons.IH [of "insert_one win v"] by simp
qed

lemma slide_result_sorted:
  assumes "sorted win" "win \<noteq> []"
  shows "sorted (slide_result win vs) \<and> length (slide_result win vs) = length win"
proof -
  have "sorted (tl win @ [last win])" using assms by (rule sorted_rotate_first)
  moreover have "tl win @ [last win] \<noteq> []" by simp
  ultimately have "sorted (foldl insert_one (tl win @ [last win]) vs)
      \<and> length (foldl insert_one (tl win @ [last win]) vs) = length (tl win @ [last win])"
    by (rule foldl_insert_one)
  then show ?thesis using assms by (simp add: slide_result_def)
qed

lemma window_at_sorted:
  assumes k: "odd ksize"
  shows "sorted (window_at g width height ksize r c)
     \<and> length (window_at g width height ksize r c) = ksize * ksize"
proof (induction c)
  case 0
  then show ?case by (simp add: length_neighbourhood [OF k])
next
  case (Suc c)
  from k have "0 < ksize * ksize" by (auto elim: oddE)
  with Suc have "window_at g width height ksize r c \<noteq> []" by auto
  with Suc show ?case
    using slide_result_sorted [of "window_at g width height ksize r c"
        "right_column g width height ksize r (Suc c)"]
    by simp
qed

subsection \<open>The column slide and the scan\<close>

lemma slide_window_result:
  assumes g: "is_grid width height src" and k: "odd ksize" and k15: "ksize \<le> 15"
    and hw: "ksize div 2 < width" and hh: "ksize div 2 < height"
    and r: "r < height" and c: "c < width"
    and srt: "sorted win" and len: "length win = ksize * ksize"
  shows "slide_window src width height ksize r c win
           = Some (slide_result win (right_column src width height ksize r c))"
proof -
  define hn where "hn = ksize div 2"
  define n1 where "n1 = ksize * ksize - 1"
  define col where "col = right_column src width height ksize r c"
  from k have kk: "ksize = 2 * hn + 1" by (auto simp: hn_def elim: oddE)
  from g have w: "width \<le> 2 ^ 30" by (simp add: is_grid_def)
  have hwn: "hn < width" and hhn: "hn < height" using hw hh by (simp_all add: hn_def)
  have hf: "int_of_size hn = int hn"
    using hwn w by (simp add: int_of_size_def int_cast_id)
  have area: "size_wrap (int ksize * int ksize) = ksize * ksize"
    by (rule area_wrap [OF hwn w kk])
  have pos: "0 < ksize * ksize" using kk by simp
  have "int (ksize * ksize) - 1 < 2 ^ 64"
  proof -
    from k15 have "int ksize \<le> 15" by simp
    then have "int ksize * int ksize \<le> 15 * 15" by (intro mult_mono) simp_all
    then show ?thesis by simp
  qed
  then have "size_wrap (int (ksize * ksize) - 1) = nat (int (ksize * ksize) - 1)"
    using pos by (intro size_wrap_nat) simp_all
  then have n1w: "size_wrap (int (ksize * ksize) - 1) = n1"
    unfolding n1_def by (simp only: nat_pred)
  have ln: "length win = n1 + 1" using len pos by (simp add: n1_def)
  have ne: "win \<noteq> []" using ln by auto
  have rm: "rd win 0 \<bind> (\<lambda>w0. bisect_left win (ksize * ksize) w0
                \<bind> (\<lambda>pos. shift_down win pos n1)) = Some (tl win @ [last win])"
    using remove_smallest [OF srt ln] pos by (simp add: n1_def)
  have "fill_new_col src width height r c hn (- int hn) (int hn) ([] @ replicate 15 0)
      = Some ([] @ map (\<lambda>d. pixel src width height (int r + d) (int c + int hn)) [- int hn..int hn]
                @ drop ksize (replicate 15 0))"
    using k15 by (intro fill_new_col_result [OF g hhn hwn r c]) (simp_all add: kk)
  then have fc: "fill_new_col src width height r c hn (- int hn) (int hn) (replicate 15 0)
      = Some (col @ drop ksize (replicate 15 0))"
    by (simp add: col_def right_column_def offsets_def hn_def)
  have lcol: "length col = ksize" by (simp add: col_def length_right_column [OF k])
  have "sorted (tl win @ [last win])" using srt ne by (intro sorted_rotate_first)
  then have "sorted (take n1 (tl win @ [last win]))" by (rule sorted_wrt_take)
  then have "insert_vals (tl win @ [last win]) (col @ drop ksize (replicate 15 0)) 0 ksize n1
      = Some (foldl insert_one (tl win @ [last win])
               (drop 0 (take ksize (col @ drop ksize (replicate 15 0)))))"
    using k15 ln lcol by (intro insert_vals_result [where d = ksize]) simp_all
  then have iv: "insert_vals (tl win @ [last win]) (col @ drop ksize (replicate 15 0)) 0 ksize n1
      = Some (slide_result win col)"
    using lcol by (simp add: slide_result_def)
  have "slide_window src width height ksize r c win
      = (rd win 0 \<bind> (\<lambda>w0. bisect_left win (ksize * ksize) w0
            \<bind> (\<lambda>pos. shift_down win pos n1)))
          \<bind> (\<lambda>win1. fill_new_col src width height r c hn (- int hn) (int hn) (replicate 15 0)
                 \<bind> (\<lambda>new_col. insert_vals win1 new_col 0 ksize n1))"
    unfolding slide_window_def Let_def hn_def [symmetric] hf area n1w
    by (simp add: Option.bind_assoc)
  then show ?thesis
    unfolding rm col_def [symmetric] using iv by (simp add: fc)
qed

lemma col_loop_result:
  assumes g: "is_grid width height src" and k: "odd ksize" and k15: "ksize \<le> 15"
    and hw: "ksize div 2 < width" and hh: "ksize div 2 < height" and r: "r < height"
  shows "d = width - c \<Longrightarrow> 0 < c \<Longrightarrow> c \<le> width \<Longrightarrow> length pre = r * width + c
     \<Longrightarrow> width - c \<le> length rest \<Longrightarrow>
     col_loop src width height ksize r c
         (window_at src width height ksize r (c - 1), pre @ rest, reads)
       = Some (window_at src width height ksize r (width - 1),
           pre @ map (\<lambda>c. window_at src width height ksize r c ! (ksize * ksize div 2)) [c..<width]
             @ drop (width - c) rest,
           reads @ map (window_at src width height ksize r) [c..<width])"
proof (induction d arbitrary: c pre rest reads)
  case 0
  then have "c = width" by simp
  then show ?case by (subst col_loop.simps) simp
next
  case (Suc d)
  define W where "W = window_at src width height ksize r"
  define mid where "mid = ksize * ksize div 2"
  from Suc.prems have c: "c < width" by simp
  from Suc.prems obtain x rest' where rest: "rest = x # rest'" and lrest: "width - (c + 1) \<le> length rest'"
    by (cases rest) simp_all
  from g have w: "width \<le> 2 ^ 30" by (simp add: is_grid_def)
  from k have kk: "ksize = 2 * (ksize div 2) + 1" by (auto elim: oddE)
  have Wc: "W c = slide_result (W (c - 1)) (right_column src width height ksize r c)"
    using Suc.prems(2) by (cases c) (simp_all add: W_def)
  have sl: "sorted (W (c - 1))" "length (W (c - 1)) = ksize * ksize" "length (W c) = ksize * ksize"
    using window_at_sorted [OF k] by (simp_all add: W_def)
  have slide: "slide_window src width height ksize r c (W (c - 1)) = Some (W c)"
    unfolding Wc by (rule slide_window_result [OF g k k15 hw hh r c sl(1,2)])
  have mi: "median_index ksize = mid"
    unfolding mid_def by (rule median_index_eq [OF hw w kk])
  have "0 < ksize * ksize" using kk by (metis add_is_0 mult_is_0 not_gr_zero zero_neq_one)
  then have "mid < ksize * ksize" by (simp add: mid_def)
  then have med: "rd (W c) mid = Some (W c ! mid)" by (simp add: rd_def sl(3))
  have idx: "size_wrap (int (size_wrap (int r * int width)) + int c) = length pre"
    using dst_index [OF g r c] Suc.prems(4) by simp
  have wri: "wr (pre @ rest) (length pre) (W c ! mid) = Some ((pre @ [W c ! mid]) @ rest')"
    by (simp add: wr_def rest)
  have "col_loop src width height ksize r (c + 1) (W (c + 1 - 1), (pre @ [W c ! mid]) @ rest', reads @ [W c])
      = Some (W (width - 1),
           (pre @ [W c ! mid]) @ map (\<lambda>c. W c ! mid) [c + 1..<width] @ drop (width - (c + 1)) rest',
           (reads @ [W c]) @ map W [c + 1..<width])"
    unfolding W_def mid_def using Suc.prems lrest by (intro Suc.IH) simp_all
  moreover have "[c..<width] = c # [c + 1..<width]" using c by (simp add: upt_conv_Cons)
  moreover have "drop (width - c) rest = drop (width - (c + 1)) rest'"
  proof -
    have "width - c = Suc (width - (c + 1))" using c by simp
    then show ?thesis by (simp only: rest drop_Suc_Cons)
  qed
  ultimately have step: "col_loop src width height ksize r (c + 1) (W c, (pre @ [W c ! mid]) @ rest', reads @ [W c])
      = Some (W (width - 1), pre @ map (\<lambda>c. W c ! mid) [c..<width] @ drop (width - c) rest,
           reads @ map W [c..<width])"
    by simp
  have "col_loop src width height ksize r c (W (c - 1), pre @ rest, reads)
      = Some (W (width - 1), pre @ map (\<lambda>c. W c ! mid) [c..<width] @ drop (width - c) rest,
           reads @ map W [c..<width])"
    apply (subst col_loop.simps)
    using c step wri slide med by (simp add: mi idx)
  then show ?case by (simp only: W_def mid_def)
qed

lemma row_loop_result:
  assumes g: "is_grid width height src" and k: "odd ksize" and k15: "ksize \<le> 15"
    and hw: "ksize div 2 < width" and hh: "ksize div 2 < height"
  shows "d = height - r \<Longrightarrow> r \<le> height
     \<Longrightarrow> (r < height \<longrightarrow> win = window_at src width height ksize r 0)
     \<Longrightarrow> length pre = r * width \<Longrightarrow> (height - r) * width \<le> length rest \<Longrightarrow>
     \<exists>win'. row_loop src width height ksize r (win, pre @ rest, reads)
       = Some (win',
           pre @ concat (map (\<lambda>r. map (\<lambda>c. window_at src width height ksize r c
                                               ! (ksize * ksize div 2)) [0..<width]) [r..<height])
             @ drop ((height - r) * width) rest,
           reads @ concat (map (\<lambda>r. map (window_at src width height ksize r) [0..<width])
                               [r..<height]))"
proof (induction d arbitrary: r win pre rest reads)
  case 0
  then have "r = height" by simp
  then show ?case by (subst row_loop.simps) simp
next
  case (Suc d)
  define W where "W = window_at src width height ksize"
  define mid where "mid = ksize * ksize div 2"
  define outs where "outs = (\<lambda>r. map (\<lambda>c. W r c ! mid) [0..<width])"
  define med where "med = W r 0 ! mid"
  from Suc.prems have r: "r < height" and win: "win = W r 0" by (simp_all add: W_def)
  from g have w: "width \<le> 2 ^ 30" "0 < width" and h: "height \<le> 2 ^ 30"
    by (simp_all add: is_grid_def)
  from k have kk: "ksize = 2 * (ksize div 2) + 1" by (auto elim: oddE)
  have hr: "height - r = Suc (height - (r + 1))" using r by simp
  from Suc.prems(5) have lr: "width \<le> length rest"
      "(height - (r + 1)) * width \<le> length (drop width rest)"
    by (simp_all add: hr)
  with w obtain x rest' where rest: "rest = x # rest'" and lrest': "width - 1 \<le> length rest'"
    by (cases rest) simp_all
  have sl: "sorted (W r c)" "length (W r c) = ksize * ksize" for c
    using window_at_sorted [OF k] by (simp_all add: W_def)
  have mi: "median_index ksize = mid"
    unfolding mid_def by (rule median_index_eq [OF hw w(1) kk])
  have "0 < ksize * ksize" using kk by (metis add_is_0 mult_is_0 not_gr_zero zero_neq_one)
  then have "mid < ksize * ksize" by (simp add: mid_def)
  then have rdm: "rd (W r 0) mid = Some med" by (simp add: rd_def sl med_def)
  have idx: "size_wrap (int r * int width) = length pre"
    using dst_index(1) [OF g r w(2)] Suc.prems(4) by simp
  have wri: "wr (pre @ rest) (length pre) med = Some ((pre @ [med]) @ rest')"
    by (simp add: wr_def rest)
  have "col_loop src width height ksize r 1
         (window_at src width height ksize r (1 - 1), (pre @ [med]) @ rest', reads @ [W r 0])
       = Some (window_at src width height ksize r (width - 1),
           (pre @ [med]) @ map (\<lambda>c. window_at src width height ksize r c ! (ksize * ksize div 2)) [1..<width]
             @ drop (width - 1) rest',
           (reads @ [W r 0]) @ map (window_at src width height ksize r) [1..<width])"
    using w(2) lrest' Suc.prems(4)
    by (intro col_loop_result [OF g k k15 hw hh r, where d = "width - 1"]) simp_all
  moreover have "[0..<width] = 0 # [1..<width]" using w(2) by (simp add: upt_conv_Cons)
  moreover have "drop (width - 1) rest' = drop width rest"
  proof -
    have "width = Suc (width - 1)" using w(2) by simp
    then show ?thesis by (metis rest drop_Suc_Cons)
  qed
  ultimately have cl: "col_loop src width height ksize r 1 (W r 0, (pre @ [med]) @ rest', reads @ [W r 0])
       = Some (W r (width - 1), (pre @ outs r) @ drop width rest, reads @ map (W r) [0..<width])"
    by (simp add: W_def mid_def outs_def med_def)
  define win2 where "win2 = (if r + 1 < height then W (r + 1) 0 else W r (width - 1))"
  have rb: "(if r + 1 < height
              then rebuild_window src width height ksize
                     (\<lambda>dr. int_of_size (size_plus_int (r + 1) dr)) (W r (width - 1))
              else Some (W r (width - 1))) = Some win2"
  proof (cases "r + 1 < height")
    case True
    have "rebuild_window src width height ksize
            (\<lambda>dr. int_of_size (size_plus_int (r + 1) dr)) (W r (width - 1))
        = Some (sort (neighbourhood src width height ksize (r + 1) 0))"
    proof (rule rebuild_window_sorted [OF g k hw hh True sl(2)])
      fix d :: int
      assume "- int (ksize div 2) \<le> d" "d \<le> int (ksize div 2)"
      then show "int_of_size (size_plus_int (r + 1) d) = int (r + 1) + d"
        using True hh h by (intro int_of_size_plus) simp_all
    qed
    with True show ?thesis by (simp add: win2_def W_def)
  next
    case False
    then show ?thesis by (simp add: win2_def)
  qed
  have rb1: "r + 1 < height \<Longrightarrow> rebuild_window src width height ksize
                     (\<lambda>dr. int_of_size (size_plus_int (r + 1) dr)) (W r (width - 1)) = Some win2"
    and rb2: "\<not> r + 1 < height \<Longrightarrow> W r (width - 1) = win2"
    using rb by (simp_all split: if_splits)
  have "\<exists>win'. row_loop src width height ksize (r + 1) (win2, (pre @ outs r) @ drop width rest,
         reads @ map (W r) [0..<width])
       = Some (win',
           (pre @ outs r) @ concat (map (\<lambda>r. map (\<lambda>c. window_at src width height ksize r c
                                               ! (ksize * ksize div 2)) [0..<width]) [r + 1..<height])
             @ drop ((height - (r + 1)) * width) (drop width rest),
           (reads @ map (W r) [0..<width])
             @ concat (map (\<lambda>r. map (window_at src width height ksize r) [0..<width])
                               [r + 1..<height]))"
    using Suc.prems r lr(2)
    by (intro Suc.IH) (simp_all add: outs_def win2_def W_def)
  moreover have "[r..<height] = r # [r + 1..<height]" using r by (simp add: upt_conv_Cons)
  moreover have "drop ((height - (r + 1)) * width) (drop width rest)
      = drop ((height - r) * width) rest"
    by (simp add: hr add.commute)
  ultimately obtain win' where step:
    "row_loop src width height ksize (r + 1) (win2, (pre @ outs r) @ drop width rest,
         reads @ map (W r) [0..<width])
       = Some (win', pre @ concat (map outs [r..<height]) @ drop ((height - r) * width) rest,
           reads @ concat (map (\<lambda>r. map (W r) [0..<width]) [r..<height]))"
    by (auto simp: W_def mid_def outs_def)
  have "row_loop src width height ksize r (W r 0, pre @ rest, reads)
       = Some (win', pre @ concat (map outs [r..<height]) @ drop ((height - r) * width) rest,
           reads @ concat (map (\<lambda>r. map (W r) [0..<width]) [r..<height]))"
    apply (subst row_loop.simps)
    using r step wri rdm cl rb1 rb2 by (simp add: mi idx)
  then show ?case unfolding win outs_def W_def mid_def by blast
qed

lemma nth_rows:
  "r < h \<Longrightarrow> c < w \<Longrightarrow> concat (map (\<lambda>r. map (f r) [0..<w]) [0..<h]) ! (r * w + c) = f r c"
proof (induction h)
  case 0
  then show ?case by simp
next
  case (Suc h)
  have len: "length (concat (map (\<lambda>r. map (f r) [0..<w]) [0..<h])) = h * w"
    by (simp add: length_concat comp_def sum_list_triv)
  show ?case
  proof (cases "r < h")
    case True
    then have "Suc r \<le> h" by simp
    then have "Suc r * w \<le> h * w" by (rule mult_le_mono1)
    with Suc.prems have "r * w + c < h * w" by simp
    with True Suc show ?thesis by (simp add: nth_append len)
  next
    case False
    with Suc.prems have "r = h" by simp
    with Suc.prems show ?thesis by (simp add: nth_append len)
  qed
qed

lemma length_rows: "length (concat (map (\<lambda>r. map (f r) [0..<w]) [0..<h])) = h * w"
  by (simp add: length_concat comp_def sum_list_triv)

lemma median_filter_scan_result:
  assumes g: "is_grid width height src" and ld: "length dst = width * height"
    and k: "odd ksize" and k15: "ksize \<le> 15"
    and hw: "ksize div 2 < width" and hh: "ksize div 2 < height"
  shows "median_filter_scan src dst width height ksize True
           = Some (scan_result src width height ksize, scan_reads src width height ksize)"
proof -
  from g have w: "width \<le> 2 ^ 30" and h: "0 < height" by (simp_all add: is_grid_def)
  from k have kk: "ksize = 2 * (ksize div 2) + 1" by (auto elim: oddE)
  from k have odd: "ksize mod 2 \<noteq> 0" by (simp add: odd_iff_mod_2_eq_one)
  have area: "size_wrap (int ksize * int ksize) = ksize * ksize"
    by (rule area_wrap [OF hw w kk])
  have alloc: "size_wrap (int (ksize * ksize) * 2) div 2 = ksize * ksize"
    by (rule alloc_length [OF hw w kk])
  have init: "rebuild_window src width height ksize (\<lambda>dr. 0 + dr) (replicate (ksize * ksize) 0)
      = Some (window_at src width height ksize 0 0)"
    using rebuild_window_sorted [OF g k hw hh h, of "replicate (ksize * ksize) 0" "\<lambda>dr. 0 + dr"]
    by simp
  have "\<exists>win'. row_loop src width height ksize 0 (window_at src width height ksize 0 0, [] @ dst, [])
       = Some (win',
           [] @ concat (map (\<lambda>r. map (\<lambda>c. window_at src width height ksize r c
                                               ! (ksize * ksize div 2)) [0..<width]) [0..<height])
             @ drop ((height - 0) * width) dst,
           [] @ concat (map (\<lambda>r. map (window_at src width height ksize r) [0..<width])
                               [0..<height]))"
    using ld by (intro row_loop_result [OF g k k15 hw hh, where d = height]) simp_all
  then obtain win' where rl:
    "row_loop src width height ksize 0 (window_at src width height ksize 0 0, dst, [])
       = Some (win', scan_result src width height ksize, scan_reads src width height ksize)"
    using ld by (auto simp: scan_result_def scan_reads_def mult.commute)
  have plus0: "(+) (0 :: int) = (\<lambda>d. d)" by (rule ext) simp
  show ?thesis
    unfolding median_filter_scan_def Let_def area
    using odd rl init alloc by (simp add: plus0)
qed

subsection \<open>The window in any run that completes\<close>

lemma slide_window_inv:
  assumes run: "slide_window src width height ksize r c win = Some win'"
    and srt: "sorted win" and len: "length win = size_wrap (int ksize * int ksize)"
    and k: "odd ksize"
  shows "sorted win' \<and> length win' = length win"
proof -
  define n where "n = size_wrap (int ksize * int ksize)"
  define n1 where "n1 = n - 1"
  have pos: "0 < n" unfolding n_def by (rule win_area_pos [OF k])
  have n1w: "size_wrap (int n - 1) = n1"
    unfolding n1_def n_def using pos size_wrap_less by (intro size_wrap_pred) (simp_all add: n_def)
  have nn: "n = n1 + 1" using pos by (simp add: n1_def)
  have ln: "length win = n1 + 1" using len nn by (simp add: n_def)
  have rm: "rd win 0 \<bind> (\<lambda>w0. bisect_left win n w0 \<bind> (\<lambda>pos. shift_down win pos n1))
      = Some (tl win @ [last win])"
    unfolding nn by (rule remove_smallest [OF srt ln])
  have "slide_window src width height ksize r c win
      = (rd win 0 \<bind> (\<lambda>w0. bisect_left win n w0 \<bind> (\<lambda>pos. shift_down win pos n1)))
          \<bind> (\<lambda>win1. fill_new_col src width height r c (ksize div 2)
                          (- int_of_size (ksize div 2)) (int_of_size (ksize div 2)) (replicate 15 0)
                 \<bind> (\<lambda>new_col. insert_vals win1 new_col 0 ksize n1))"
    unfolding slide_window_def Let_def n_def [symmetric] n1w by (simp add: Option.bind_assoc)
  with run obtain nc where iv: "insert_vals (tl win @ [last win]) nc 0 ksize n1 = Some win'"
    unfolding rm by (auto simp: bind_eq_Some_conv)
  have "win \<noteq> []" using ln by auto
  then have "sorted (tl win @ [last win])" using srt by (intro sorted_rotate_first)
  moreover have "length (tl win @ [last win]) = n1 + 1" using ln by simp
  ultimately have "sorted win' \<and> length win' = n1 + 1"
    by (intro insert_vals_inv [OF iv])
  then show ?thesis using ln by simp
qed

lemma col_loop_inv:
  assumes k: "odd ksize"
  shows "col_loop src width height ksize r c (win, dst, reads) = Some (win', dst', reads')
     \<Longrightarrow> sorted win \<Longrightarrow> length win = size_wrap (int ksize * int ksize)
     \<Longrightarrow> (\<forall>x\<in>set reads. sorted x \<and> length x = size_wrap (int ksize * int ksize))
     \<Longrightarrow> sorted win' \<and> length win' = size_wrap (int ksize * int ksize)
       \<and> (\<forall>x\<in>set reads'. sorted x \<and> length x = size_wrap (int ksize * int ksize))"
proof (induction "width - c" arbitrary: c win dst reads)
  case 0
  then have "\<not> c < width" by simp
  with "0.prems" show ?case by (subst (asm) col_loop.simps) simp
next
  case (Suc d)
  from Suc.hyps(2) have c: "c < width" by simp
  from Suc.prems(1) c obtain w1 d1 where
      sl: "slide_window src width height ksize r c win = Some w1"
      and rec: "col_loop src width height ksize r (c + 1) (w1, d1, reads @ [w1])
                  = Some (win', dst', reads')"
    by (subst (asm) col_loop.simps) (auto simp: bind_eq_Some_conv)
  from slide_window_inv [OF sl Suc.prems(2,3) k] Suc.prems(3)
  have w1: "sorted w1" "length w1 = size_wrap (int ksize * int ksize)" by simp_all
  show ?case
    using Suc.hyps(2) Suc.prems(4) w1 by (intro Suc.hyps(1) [OF _ rec]) auto
qed

lemma row_loop_inv:
  assumes k: "odd ksize"
  shows "row_loop src width height ksize r (win, dst, reads) = Some (win', dst', reads')
     \<Longrightarrow> sorted win \<Longrightarrow> length win = size_wrap (int ksize * int ksize)
     \<Longrightarrow> (\<forall>x\<in>set reads. sorted x \<and> length x = size_wrap (int ksize * int ksize))
     \<Longrightarrow> (\<forall>x\<in>set reads'. sorted x \<and> length x = size_wrap (int ksize * int ksize))"
proof (induction "height - r" arbitrary: r win dst reads)
  case 0
  then have "\<not> r < height" by simp
  with "0.prems" show ?case by (subst (asm) row_loop.simps) simp
next
  case (Suc d)
  from Suc.hyps(2) have r: "r < height" by simp
  from Suc.prems(1) r obtain d0 w1 d1 rs1 w2 where
      cl: "col_loop src width height ksize r 1 (win, d0, reads @ [win]) = Some (w1, d1, rs1)"
      and rb: "(if r + 1 < height
                then rebuild_window src width height ksize
                       (\<lambda>dr. int_of_size (size_plus_int (r + 1) dr)) w1
                else Some w1) = Some w2"
      and rec: "row_loop src width height ksize (r + 1) (w2, d1, rs1) = Some (win', dst', reads')"
    by (subst (asm) row_loop.simps) (auto simp: bind_eq_Some_conv)
  have inv1: "sorted w1 \<and> length w1 = size_wrap (int ksize * int ksize)
       \<and> (\<forall>x\<in>set rs1. sorted x \<and> length x = size_wrap (int ksize * int ksize))"
    using Suc.prems(2,3,4) by (intro col_loop_inv [OF k cl]) auto
  have w2: "sorted w2 \<and> length w2 = size_wrap (int ksize * int ksize)"
  proof (cases "r + 1 < height")
    case True
    with rb have "rebuild_window src width height ksize
                       (\<lambda>dr. int_of_size (size_plus_int (r + 1) dr)) w1 = Some w2" by simp
    moreover from inv1 have "length w1 \<le> size_wrap (int ksize * int ksize)" by simp
    ultimately show ?thesis by (rule rebuild_window_inv)
  next
    case False
    with rb inv1 show ?thesis by simp
  qed
  show ?case
    using Suc.hyps(2) w2 inv1 by (intro Suc.hyps(1) [OF _ rec]) auto
qed

lemma median_filter_scan_inv:
  assumes k: "odd ksize"
    and run: "median_filter_scan src dst width height ksize alloc_ok = Some (out, reads)"
  shows "\<forall>x\<in>set reads. sorted x \<and> length x = size_wrap (int ksize * int ksize)"
proof (cases alloc_ok)
  case False
  with k run show ?thesis
    by (simp add: median_filter_scan_def odd_iff_mod_2_eq_one)
next
  case True
  define n where "n = size_wrap (int ksize * int ksize)"
  define rowc where "rowc = (\<lambda>dr :: int. 0 + dr)"
  from k have odd: "ksize mod 2 \<noteq> 0" by (simp add: odd_iff_mod_2_eq_one)
  from run True odd obtain w0 w' where
      rb: "rebuild_window src width height ksize rowc
             (replicate (size_wrap (int n * 2) div 2) 0) = Some w0"
      and rl: "row_loop src width height ksize 0 (w0, dst, []) = Some (w', out, reads)"
    unfolding median_filter_scan_def Let_def rowc_def [symmetric] n_def [symmetric]
    by (auto simp: bind_eq_Some_conv)
  have "sorted w0 \<and> length w0 = size_wrap (int ksize * int ksize)"
    using alloc_at_most [of n] by (intro rebuild_window_inv [OF rb]) (simp add: n_def)
  then show ?thesis
    by (intro row_loop_inv [OF k rl]) simp_all
qed

subsection \<open>Kernel size 1 and even kernel sizes\<close>

lemma window_at_one:
  "r < height \<Longrightarrow> c < width \<Longrightarrow> window_at g width height (Suc 0) r c = [g ! (r * width + c)]"
proof (induction c)
  case 0
  then show ?case
    using pixel_inside [of r height 0 width g]
    by (simp add: neighbourhood_def offsets_one)
next
  case (Suc c)
  then show ?case
    using pixel_inside [of r height "Suc c" width g]
    by (simp add: right_column_def offsets_one slide_result_def insert_one_def)
qed

lemma scan_result_one:
  assumes g: "is_grid width height src"
  shows "scan_result src width height 1 = src"
proof (rule nth_equalityI)
  from g have len: "length src = width * height" and w: "0 < width" by (simp_all add: is_grid_def)
  show l: "length (scan_result src width height 1) = length src"
    by (simp add: scan_result_def length_rows len mult.commute)
  fix i assume "i < length (scan_result src width height 1)"
  with l len have i: "i < width * height" by simp
  define r where "r = i div width"
  define c where "c = i mod width"
  have c: "c < width" using w by (simp add: c_def)
  have r: "r < height" using i w by (simp add: r_def less_mult_imp_div_less mult.commute)
  have e: "i = r * width + c" by (simp add: r_def c_def)
  have "scan_result src width height 1 ! (r * width + c)
      = window_at src width height 1 r c ! (1 * 1 div 2)"
    unfolding scan_result_def by (rule nth_rows [OF r c])
  then show "scan_result src width height 1 ! i = src ! i"
    using window_at_one [OF r c, of src] by (simp add: e)
qed

lemma scan_result_Suc0:
  "is_grid width height src \<Longrightarrow> scan_result src width height (Suc 0) = src"
  using scan_result_one by simp

lemma ksize_one_copies:
  assumes g: "is_grid width height src" and ld: "length dst = width * height"
  shows "median_filter_uint16 src dst width height 1 True = Some src"
proof -
  from g have "0 < width" "0 < height" by (simp_all add: is_grid_def)
  then have "median_filter_scan src dst width height 1 True
      = Some (scan_result src width height 1, scan_reads src width height 1)"
    by (intro median_filter_scan_result [OF g ld]) simp_all
  then show ?thesis by (simp add: median_filter_uint16_def scan_result_Suc0 [OF g])
qed

lemma even_ksize_copies:
  assumes g: "is_grid width height src" and ld: "length dst = width * height"
    and k: "even ksize"
  shows "median_filter_scan src dst width height ksize alloc_ok = Some (src, [])"
proof -
  from g have w: "width \<le> 2 ^ 30" and h: "height \<le> 2 ^ 30"
    and len: "length src = width * height"
    by (simp_all add: is_grid_def)
  have "int width * int height \<le> 2 ^ 30 * 2 ^ 30"
    using w h by (intro mult_mono) simp_all
  then have b: "int width * int height < 2 ^ 62" by simp
  then have "size_wrap (int width * int height) = nat (int width * int height)"
    by (intro size_wrap_nat) simp_all
  then have a: "size_wrap (int width * int height) = width * height"
    by (simp add: nat_mult_distrib)
  have "int (width * height) * 2 < 2 ^ 64" using b by (simp add: mult.commute)
  then have "size_wrap (int (width * height) * 2) = nat (int (width * height) * 2)"
    by (intro size_wrap_nat) simp_all
  also have "\<dots> = width * height * 2" by (simp add: nat_mult_distrib)
  finally have bytes: "size_wrap (int (width * height) * 2) div 2 = width * height" by simp
  have "memcpy_uint16 dst src (size_wrap (int (width * height) * 2)) = Some src"
    unfolding memcpy_uint16_def Let_def bytes using len ld by simp
  then show ?thesis
    unfolding median_filter_scan_def a using k by simp
qed

subsection \<open>The demonstration image\<close>

lemma example_scan:
  "scan_result example_grid 5 4 3
     = [11, 11, 11, 12, 12, 12, 12, 13, 14, 15, 20, 20, 20, 20, 20, 21, 22, 22, 22, 22]"
  by code_simp

lemma example_block:
  "neighbourhood example_grid 5 4 3 1 1 = [10, 12, 13, 9, 11, 14, 20, 22, 23]"
  by code_simp

lemma example_block_median: "full_sort_median [10, 12, 13, 9, 11, 14, 20, 22, 23] = 13"
  by code_simp

lemma example_window: "window_at example_grid 5 4 3 1 0 = [9, 10, 11, 11, 12, 12, 20, 22, 22]"
  by code_simp

lemma example_column: "right_column example_grid 5 4 3 1 1 = [13, 14, 23]"
  by code_simp

lemma example_slide:
  "slide_result [9, 10, 11, 11, 12, 12, 20, 22, 22] [13, 14, 23]
     = [10, 11, 11, 12, 12, 13, 14, 20, 23]"
  by code_simp

lemma example_specified:
  "slide_as_specified 3 [9, 10, 11, 11, 12, 12, 20, 22, 22] [13, 14, 23]
     = [11, 12, 12, 13, 14, 20, 22, 22, 23]"
  by code_simp

section \<open>The claims\<close>

text \<open>
  Claim C1: for odd \<open>ksize\<close> and an interior pixel, whose neighbourhood needs no
  reflection, the value written by \<open>median_filter_uint16\<close> is the median of the
  \<open>ksize\<close> by \<open>ksize\<close> block obtained by sorting the block and taking its middle
  element. The code does not do this. On the demonstration image with \<open>ksize = 3\<close>
  the pixel in row 1, column 1 is interior; its block is
  \<open>10, 12, 13, 9, 11, 14, 20, 22, 23\<close> with median 13, and the filter writes 12 at
  index \<open>1 * 5 + 1\<close>.
\<close>

theorem interior_pixel_not_median:
  "median_filter_uint16 example_grid (replicate 20 0) 5 4 3 True
       = Some [11, 11, 11, 12, 12, 12, 12, 13, 14, 15, 20, 20, 20, 20, 20, 21, 22, 22, 22, 22]
     \<and> neighbourhood example_grid 5 4 3 1 1 = [10, 12, 13, 9, 11, 14, 20, 22, 23]
     \<and> full_sort_median (neighbourhood example_grid 5 4 3 1 1) = 13
     \<and> [11, 11, 11, 12, 12, 12, 12, 13, 14, 15, 20, 20, 20, 20, 20, 21, 22, 22, 22, 22] ! (1 * 5 + 1)
         \<noteq> full_sort_median (neighbourhood example_grid 5 4 3 1 1)"
proof -
  have g: "is_grid 5 4 example_grid" by (simp add: is_grid_def example_grid_def)
  have "median_filter_scan example_grid (replicate 20 0) 5 4 3 True
      = Some (scan_result example_grid 5 4 3, scan_reads example_grid 5 4 3)"
    by (rule median_filter_scan_result [OF g]) simp_all
  then show ?thesis
    using example_scan example_block example_block_median
    by (simp add: median_filter_uint16_def)
qed

text \<open>
  Claim C2: a column slide performs \<open>ksize\<close> removals of the minimum and then inserts
  the \<open>ksize\<close> values of the new column, so that the window becomes the previous one
  without its \<open>ksize\<close> smallest elements, with the new values. The code removes the
  minimum once; it then inserts every new value among the first \<open>ksize\<^sup>2 - 1\<close>
  elements, which from the second insertion on overwrites the largest element. In row 1
  of the demonstration image the slide from column 0 to column 1 leaves 10 and 11 in the
  window and loses 22 twice.
\<close>

theorem column_slide_removes_one:
  "window_at example_grid 5 4 3 1 0 = [9, 10, 11, 11, 12, 12, 20, 22, 22]
     \<and> right_column example_grid 5 4 3 1 1 = [13, 14, 23]
     \<and> slide_window example_grid 5 4 3 1 1 [9, 10, 11, 11, 12, 12, 20, 22, 22]
         = Some [10, 11, 11, 12, 12, 13, 14, 20, 23]
     \<and> slide_as_specified 3 [9, 10, 11, 11, 12, 12, 20, 22, 22] [13, 14, 23]
         = [11, 12, 12, 13, 14, 20, 22, 22, 23]"
proof -
  have g: "is_grid 5 4 example_grid" by (simp add: is_grid_def example_grid_def)
  have "slide_window example_grid 5 4 3 1 1 [9, 10, 11, 11, 12, 12, 20, 22, 22]
      = Some (slide_result [9, 10, 11, 11, 12, 12, 20, 22, 22]
               (right_column example_grid 5 4 3 1 1))"
    by (rule slide_window_result [OF g]) simp_all
  then show ?thesis
    using example_window example_column example_slide example_specified
    by simp
qed

text \<open>
  Claim C3: with odd \<open>ksize\<close> and every access in range, the value written at column 0
  of row \<open>r\<close> is the element at index \<open>half * ksize + half\<close> of the ascending
  window built for \<open>(r, 0)\<close>; that index is the middle index \<open>ksize\<^sup>2 div 2\<close>; so
  the value is the full-sort median of the mirror-padded neighbourhood of \<open>(r, 0)\<close>.
\<close>

theorem column_zero_median:
  assumes g: "is_grid width height src" and ld: "length dst = width * height"
    and k: "odd ksize" and k15: "ksize \<le> 15"
    and hw: "ksize div 2 < width" and hh: "ksize div 2 < height" and r: "r < height"
  shows "\<exists>out. median_filter_uint16 src dst width height ksize True = Some out
     \<and> out ! (r * width)
         = sort (neighbourhood src width height ksize r 0) ! (ksize div 2 * ksize + ksize div 2)
     \<and> ksize div 2 * ksize + ksize div 2 = ksize * ksize div 2
     \<and> out ! (r * width) = full_sort_median (neighbourhood src width height ksize r 0)"
proof -
  from g have w: "0 < width" by (simp add: is_grid_def)
  from k have kk: "ksize = 2 * (ksize div 2) + 1" by (auto elim: oddE)
  have mid: "ksize div 2 * ksize + ksize div 2 = ksize * ksize div 2"
    by (rule odd_mid [OF k])
  have run: "median_filter_uint16 src dst width height ksize True
      = Some (scan_result src width height ksize)"
    by (simp add: median_filter_uint16_def median_filter_scan_result [OF g ld k k15 hw hh])
  have "scan_result src width height ksize ! (r * width + 0)
      = window_at src width height ksize r 0 ! (ksize * ksize div 2)"
    unfolding scan_result_def by (rule nth_rows [OF r w])
  then have out: "scan_result src width height ksize ! (r * width)
      = sort (neighbourhood src width height ksize r 0) ! (ksize * ksize div 2)"
    by simp
  show ?thesis
    using run out mid by (simp add: full_sort_median_def length_neighbourhood [OF k])
qed

theorem column_zero_median_witness:
  "\<exists>out. median_filter_uint16 example_grid (replicate 20 0) 5 4 3 True = Some out
     \<and> out ! (2 * 5) = full_sort_median (neighbourhood example_grid 5 4 3 2 0)"
proof -
  have "is_grid 5 4 example_grid" by (simp add: is_grid_def example_grid_def)
  from column_zero_median [OF this, of "replicate 20 0" 3 2]
  show ?thesis by auto
qed

text \<open>
  Claim C4: \<open>getp\<close> returns the sample at the coordinates obtained by reflecting each
  axis on its own: \<open>v < 0\<close> becomes \<open>- v\<close>, \<open>v \<ge> extent\<close> becomes
  \<open>2 * extent - v - 2\<close>, any other \<open>v\<close> is unchanged. The sample is the one at
  the row-major address of the reflected pair, and there is none when that address is
  outside the array.
\<close>

theorem getp_reflects:
  assumes "is_grid width height src" and "is_coord r" and "is_coord c"
  shows "getp src width height r c = sample_at src width (reflect height r) (reflect width c)"
  using assms by (rule getp_sample)

theorem getp_reflects_witness:
  "is_grid 3 2 [1, 2, 3, 4, 5, 6] \<and> is_coord (- 1) \<and> is_coord 3
     \<and> getp [1, 2, 3, 4, 5, 6] 3 2 (- 1) 3 = Some 5"
  using getp_reflects [of 3 2 "[1, 2, 3, 4, 5, 6]" "- 1" 3]
  by (simp add: is_grid_def is_coord_def sample_at_def reflect_def)

text \<open>
  Claim C5: in one run with odd \<open>ksize\<close> the window holds \<open>ksize\<^sup>2\<close> values in
  ascending order wherever a median is read: after the initial sort, after every column
  slide, and after every rebuild and sort at the start of a row. The list of windows
  read has this property in every run that completes, whatever the input (the window
  length is \<open>ksize * ksize\<close> as \<open>size_t\<close> computes it); and under the safety
  preconditions the run does complete and reads one median per pixel.
\<close>

theorem windows_ascending:
  assumes k: "odd ksize"
  shows "(\<forall>out reads. median_filter_scan src dst width height ksize alloc_ok = Some (out, reads)
            \<longrightarrow> (\<forall>win\<in>set reads. sorted win \<and> length win = size_wrap (int ksize * int ksize)))
     \<and> (is_grid width height src \<and> length dst = width * height \<and> ksize \<le> 15
          \<and> ksize div 2 < width \<and> ksize div 2 < height
        \<longrightarrow> (\<exists>out reads. median_filter_scan src dst width height ksize True = Some (out, reads)
              \<and> length reads = width * height
              \<and> (\<forall>win\<in>set reads. sorted win \<and> length win = ksize * ksize)))"
proof (intro conjI allI impI)
  fix out reads
  assume "median_filter_scan src dst width height ksize alloc_ok = Some (out, reads)"
  then show "\<forall>win\<in>set reads. sorted win \<and> length win = size_wrap (int ksize * int ksize)"
    by (rule median_filter_scan_inv [OF k])
next
  assume a: "is_grid width height src \<and> length dst = width * height \<and> ksize \<le> 15
          \<and> ksize div 2 < width \<and> ksize div 2 < height"
  have "\<forall>win\<in>set (scan_reads src width height ksize). sorted win \<and> length win = ksize * ksize"
    using window_at_sorted [OF k] by (auto simp: scan_reads_def)
  moreover have "length (scan_reads src width height ksize) = width * height"
    by (simp add: scan_reads_def length_rows mult.commute)
  moreover have "median_filter_scan src dst width height ksize True
      = Some (scan_result src width height ksize, scan_reads src width height ksize)"
    using a k by (intro median_filter_scan_result) simp_all
  ultimately show "\<exists>out reads. median_filter_scan src dst width height ksize True = Some (out, reads)
              \<and> length reads = width * height
              \<and> (\<forall>win\<in>set reads. sorted win \<and> length win = ksize * ksize)"
    by simp
qed

theorem windows_ascending_witness:
  "\<exists>out reads. median_filter_scan example_grid (replicate 20 0) 5 4 3 True = Some (out, reads)
     \<and> length reads = 20
     \<and> (\<forall>win\<in>set reads. sorted win \<and> length win = 9 \<and> length win = size_wrap 9)"
proof -
  have g: "is_grid 5 4 example_grid" by (simp add: is_grid_def example_grid_def)
  have k: "odd (3 :: nat)" by simp
  from windows_ascending [OF k, of example_grid "replicate 20 0" 5 4 True] g
  show ?thesis by auto
qed

text \<open>
  Claim C6: for even \<open>ksize\<close> \<open>median_filter_uint16\<close> copies the input to the output
  and returns; the output equals the input and no median is read.
\<close>

theorem even_ksize_identity:
  assumes "is_grid width height src" and "length dst = width * height" and "even ksize"
  shows "median_filter_uint16 src dst width height ksize alloc_ok = Some src
     \<and> median_filter_scan src dst width height ksize alloc_ok = Some (src, [])"
  using even_ksize_copies [OF assms] by (simp add: median_filter_uint16_def)

theorem even_ksize_identity_witness:
  "median_filter_uint16 [1, 2, 3, 4, 5, 6] [0, 0, 0, 0, 0, 0] 3 2 2 True = Some [1, 2, 3, 4, 5, 6]"
  using even_ksize_identity [of 3 2 "[1, 2, 3, 4, 5, 6]" "[0, 0, 0, 0, 0, 0]" 2 True]
  by (simp add: is_grid_def)

text \<open>
  Claim C7: with \<open>ksize = 1\<close> the output grid equals the input grid.
\<close>

theorem ksize_one_identity:
  assumes "is_grid width height src" and "length dst = width * height"
  shows "median_filter_uint16 src dst width height 1 True = Some src"
  using assms by (rule ksize_one_copies)

theorem ksize_one_identity_witness:
  "median_filter_uint16 example_grid (replicate 20 0) 5 4 1 True = Some example_grid"
  using ksize_one_identity [of 5 4 example_grid "replicate 20 0"]
  by (simp add: is_grid_def example_grid_def)

text \<open>
  Claim C8: for odd \<open>ksize \<le> 15\<close> with \<open>ksize div 2\<close> below both extents no access
  is out of bounds. The run completes, every access having passed its bounds check;
  the index \<open>getp\<close> computes is below \<open>width * height\<close> for every coordinate pair the
  scan can ask for; every index into \<open>new_col\<close> is below 15 and below \<open>ksize\<close>; the
  window has \<open>ksize\<^sup>2\<close> elements and the median index is below that.
\<close>

theorem accesses_in_bounds:
  assumes g: "is_grid width height src" and ld: "length dst = width * height"
    and k: "odd ksize" and k15: "ksize \<le> 15"
    and hw: "ksize div 2 < width" and hh: "ksize div 2 < height"
  shows "(\<exists>out. median_filter_uint16 src dst width height ksize True = Some out)
     \<and> (\<forall>r c. - int (ksize div 2) \<le> r \<and> r < int height + int (ksize div 2)
            \<and> - int (ksize div 2) \<le> c \<and> c < int width + int (ksize div 2)
          \<longrightarrow> getp_index width height r c < width * height)
     \<and> (\<forall>dr. - int_of_size (ksize div 2) \<le> dr \<and> dr \<le> int_of_size (ksize div 2)
          \<longrightarrow> 0 \<le> int_cast (dr + int_of_size (ksize div 2))
            \<and> int_cast (dr + int_of_size (ksize div 2)) < 15
            \<and> int_cast (dr + int_of_size (ksize div 2)) < int ksize)
     \<and> size_wrap (int (size_wrap (int ksize * int ksize)) * 2) div 2 = ksize * ksize
     \<and> median_index ksize < ksize * ksize"
proof -
  define hn where "hn = ksize div 2"
  from g have w: "width \<le> 2 ^ 30" and h: "height \<le> 2 ^ 30" by (simp_all add: is_grid_def)
  from k have kk: "ksize = 2 * hn + 1" by (auto simp: hn_def elim: oddE)
  have hwn: "hn < width" and hhn: "hn < height" using hw hh by (simp_all add: hn_def)
  have h7: "hn \<le> 7" using k15 kk by simp
  have hf: "int_of_size hn = int hn"
    using h7 by (simp add: int_of_size_def int_cast_id)
  have run: "\<exists>out. median_filter_uint16 src dst width height ksize True = Some out"
    by (simp add: median_filter_uint16_def median_filter_scan_result [OF g ld k k15 hw hh])
  have gi: "getp_index width height r c < width * height"
    if "- int hn \<le> r" "r < int height + int hn" "- int hn \<le> c" "c < int width + int hn" for r c
  proof -
    have cr: "is_coord r" "is_coord c" using that h7 w h by (simp_all add: is_coord_def)
    have R: "0 \<le> reflect height r \<and> reflect height r < int height"
      using that hhn by (intro reflect_in_range [of hn]) simp_all
    have C: "0 \<le> reflect width c \<and> reflect width c < int width"
      using that hwn by (intro reflect_in_range [of hn]) simp_all
    show ?thesis using R C by (intro getp_index_less [OF g cr]) simp_all
  qed
  have nc: "0 \<le> int_cast (dr + int hn) \<and> int_cast (dr + int hn) < 15
      \<and> int_cast (dr + int hn) < int ksize"
    if "- int hn \<le> dr" "dr \<le> int hn" for dr
  proof -
    have "int_cast (dr + int hn) = dr + int hn"
      using that h7 by (intro int_cast_id) simp_all
    then show ?thesis using that h7 kk by simp
  qed
  have area: "size_wrap (int ksize * int ksize) = ksize * ksize"
    by (rule area_wrap [OF hwn w kk])
  have alloc: "size_wrap (int (ksize * ksize) * 2) div 2 = ksize * ksize"
    by (rule alloc_length [OF hwn w kk])
  have "0 < ksize * ksize" using kk by simp
  then have mi: "median_index ksize < ksize * ksize"
    using median_index_eq [OF hwn w kk] by simp
  show ?thesis
    unfolding hn_def [symmetric] hf area
    using run gi nc alloc mi by simp
qed

theorem accesses_in_bounds_witness:
  "(\<exists>out. median_filter_uint16 example_grid (replicate 20 0) 5 4 3 True = Some out)
     \<and> getp_index 5 4 (- 1) 5 < 20 \<and> median_index 3 < 9"
proof -
  have "is_grid 5 4 example_grid" by (simp add: is_grid_def example_grid_def)
  from accesses_in_bounds [OF this, of "replicate 20 0" 3]
  show ?thesis by simp
qed

text \<open>
  Claim C9: on a 1 by 1 or 1 by N grid, for every \<open>ksize\<close> up to the grid extent, no
  access is out of bounds and every output cell receives a sample. This fails for the
  odd kernel sizes from 3 on: on the one-row grid \<open>1, 2, 3\<close> with \<open>ksize = 3\<close> the
  first sample of the window is read at row 1, index 4 of an array of 3.
\<close>

theorem one_row_grid_out_of_bounds:
  "median_filter_uint16 [1, 2, 3] [0, 0, 0] 3 1 3 True = None"
proof -
  have gp: "getp [1, 2, 3] 3 1 (- 1) (- 1) = None"
    by (simp add: getp_def getp_index_def mirror_def int_cast_def size_wrap_def rd_def)
  have bc: "build_cols [1, 2, 3] 3 1 (- 1) (- 1) 1 win 0 = None" for win
    apply (subst build_cols.simps)
    using gp by simp
  have br: "rowc (- 1) = - 1 \<Longrightarrow> build_rows [1, 2, 3] 3 1 rowc (- 1) 1 win 0 = None"
    for win rowc
    apply (subst build_rows.simps)
    using bc by simp
  have hf: "int_of_size (3 div 2) = 1"
    by (simp add: int_of_size_def int_cast_def)
  have "rowc (- 1) = - 1 \<Longrightarrow> rebuild_window [1, 2, 3] 3 1 3 rowc win = None" for win rowc
    unfolding rebuild_window_def Let_def hf using br by simp
  then show ?thesis
    by (simp add: median_filter_uint16_def median_filter_scan_def Let_def)
qed

text \<open>
  Claim C9 as it holds: on a grid with one row or one column, for every \<open>ksize\<close> that
  is even or 1, no access is out of bounds and the output equals the input.
\<close>

theorem one_row_grid_small_ksize:
  assumes "is_grid width height src" and "length dst = width * height"
    and "height = 1 \<or> width = 1" and "even ksize \<or> ksize = 1"
  shows "median_filter_uint16 src dst width height ksize True = Some src"
proof (cases "even ksize")
  case True
  with even_ksize_copies [OF assms(1,2) True] show ?thesis
    by (simp add: median_filter_uint16_def)
next
  case False
  with assms(4) have "ksize = 1" by simp
  with ksize_one_copies [OF assms(1,2)] show ?thesis by simp
qed

theorem one_row_grid_small_ksize_witness:
  "median_filter_uint16 [1, 2, 3] [0, 0, 0] 3 1 1 True = Some [1, 2, 3]
     \<and> median_filter_uint16 [4] [0] 1 1 2 True = Some [4]"
  using one_row_grid_small_ksize [of 3 1 "[1, 2, 3]" "[0, 0, 0]" 1]
    one_row_grid_small_ksize [of 1 1 "[4]" "[0]" 2]
  by (simp add: is_grid_def)

text \<open>
  Claim C10: for odd \<open>ksize\<close>, when the window cannot be allocated the function
  returns as it does on success, with no error value; the allocation precedes every
  write, so no cell has been computed and the whole output buffer keeps the contents
  the caller gave it.
\<close>

theorem alloc_failure_leaves_output:
  assumes "odd ksize"
  shows "median_filter_uint16 src dst width height ksize False = Some dst
     \<and> median_filter_scan src dst width height ksize False = Some (dst, [])"
  using assms by (simp add: median_filter_uint16_def median_filter_scan_def odd_iff_mod_2_eq_one)

theorem alloc_failure_leaves_output_witness:
  "median_filter_uint16 example_grid (replicate 20 7) 5 4 3 False = Some (replicate 20 7)"
  using alloc_failure_leaves_output [of 3 example_grid "replicate 20 7" 5 4]
  by simp

end
